theory Spec2Isabelle
  imports Complex_Main
begin

section \<open>Values and errors\<close>

text \<open>
  The script \<^verbatim>\<open>validation_Narrabeen.py\<close> computes on numpy arrays of floats. An array
  entry is modelled as a finite real number or the marker \<open>NaN\<close>; rounding of the
  floating-point operations is not modelled, every operation is exact. A comparison
  with \<open>NaN\<close> is false, as in numpy.
\<close>

datatype npfloat = NaN | Fin real

datatype py_error = ValueError | IndexError | KeyError | TypeError

fun np_eq :: "npfloat \<Rightarrow> real \<Rightarrow> bool" where
  "np_eq NaN c = False"
| "np_eq (Fin x) c = (x = c)"

fun np_gt :: "npfloat \<Rightarrow> real \<Rightarrow> bool" where
  "np_gt NaN c = False"
| "np_gt (Fin x) c = (x > c)"

fun np_lt :: "npfloat \<Rightarrow> real \<Rightarrow> bool" where
  "np_lt NaN c = False"
| "np_lt (Fin x) c = (x < c)"

fun isnan :: "npfloat \<Rightarrow> bool" where
  "isnan NaN = True"
| "isnan (Fin x) = False"

text \<open>\<^verbatim>\<open>np.round\<close> rounds to the nearest integer, a half to the even neighbour.\<close>

definition round_half_even :: "real \<Rightarrow> real" where
  "round_half_even x =
     (let f = \<lfloor>x\<rfloor>; d = x - of_int f
      in if d < 1 / 2 then of_int f
         else if d > 1 / 2 then of_int (f + 1)
         else if even f then of_int f else of_int (f + 1))"

fun np_round :: "npfloat \<Rightarrow> npfloat" where
  "np_round NaN = NaN"
| "np_round (Fin x) = Fin (round_half_even x)"

fun np_abs_diff :: "npfloat \<Rightarrow> npfloat \<Rightarrow> npfloat" where
  "np_abs_diff (Fin a) (Fin b) = Fin \<bar>a - b\<bar>"
| "np_abs_diff _ _ = NaN"

text \<open>The values of a list that are not \<open>NaN\<close>, in order.\<close>

fun fin_values :: "npfloat list \<Rightarrow> real list" where
  "fin_values [] = []"
| "fin_values (NaN # vs) = fin_values vs"
| "fin_values (Fin x # vs) = x # fin_values vs"

text \<open>\<^verbatim>\<open>np.nanmean\<close>: the mean of the entries that are not \<open>NaN\<close>; \<open>NaN\<close> (and a
  warning) when there is none.\<close>

definition nanmean :: "npfloat list \<Rightarrow> npfloat" where
  "nanmean vs =
     (let xs = fin_values vs
      in if xs = [] then NaN else Fin (sum_list xs / real (length xs)))"

text \<open>
  The quotient of two numpy integers (\<^verbatim>\<open>np.int64 / np.int64\<close>): numpy raises nothing on a
  zero divisor, the result is \<open>nan\<close> for \<open>0/0\<close> and \<open>inf\<close> otherwise.
\<close>

datatype npquot = QNaN | QInf | QFin real

definition true_divide :: "nat \<Rightarrow> nat \<Rightarrow> npquot" where
  "true_divide n d =
     (if d = 0 then (if n = 0 then QNaN else QInf) else QFin (real n / real d))"

fun quot_gt :: "npquot \<Rightarrow> real \<Rightarrow> bool" where
  "quot_gt QNaN t = False"
| "quot_gt QInf t = True"
| "quot_gt (QFin x) t = (x > t)"

text \<open>The index of the first element that satisfies \<open>P\<close> (the length when there is none).\<close>

fun first_index :: "('a \<Rightarrow> bool) \<Rightarrow> 'a list \<Rightarrow> nat" where
  "first_index P [] = 0"
| "first_index P (x # xs) = (if P x then 0 else Suc (first_index P xs))"

section \<open>Consensus filter (lines 106 to 199 of the script)\<close>

type_synonym raster = "npfloat list list"

record settings =
  prc_pixel :: real
  prc_image :: real

text \<open>\<^verbatim>\<open>_.shape[0]\<close> and \<^verbatim>\<open>_.shape[1]\<close> of a raster held as a list of rows.\<close>

definition shape0 :: "raster \<Rightarrow> nat" where
  "shape0 im = length im"

definition shape1 :: "raster \<Rightarrow> nat" where
  "shape1 im = (case im of [] \<Rightarrow> 0 | r # _ \<Rightarrow> length r)"

text \<open>\<^verbatim>\<open>np.unique\<close>: the distinct values in ascending order.\<close>

definition np_unique :: "nat list \<Rightarrow> nat list" where
  "np_unique xs = sort (remdups xs)"

text \<open>\<^verbatim>\<open>np.argmax\<close>: the first index of the maximum; \<open>ValueError\<close> on an empty sequence.\<close>

definition np_argmax :: "nat list \<Rightarrow> py_error + nat" where
  "np_argmax cs =
     (if cs = [] then Inl ValueError else Inr (first_index (\<lambda>c. c = Max (set cs)) cs))"

text \<open>
  Lines 117 to 120 (and 121 to 124 for the width):
  \<^verbatim>\<open>
  if len(np.unique(height)) == 1: height = height[0]
  else:
      counts = [sum(height == _) for _ in np.unique(height)]
      height = np.unique(height)[np.argmax(counts)]
  \<close>
\<close>

definition canonical_dim :: "nat list \<Rightarrow> py_error + nat" where
  "canonical_dim ds =
     (if length (np_unique ds) = 1 then Inr (ds ! 0)
      else (let counts = map (\<lambda>u. count_list ds u) (np_unique ds)
            in case np_argmax counts of
                 Inl e \<Rightarrow> Inl e
               | Inr i \<Rightarrow> Inr (np_unique ds ! i)))"

definition canonical_size :: "raster list \<Rightarrow> py_error + (nat \<times> nat)" where
  "canonical_size ims =
     (case canonical_dim (map shape0 ims) of
        Inl e \<Rightarrow> Inl e
      | Inr h \<Rightarrow> (case canonical_dim (map shape1 ims) of
                    Inl e \<Rightarrow> Inl e
                  | Inr w \<Rightarrow> Inr (h, w)))"

text \<open>Lines 127 to 129: the images whose height or width is too far from the canonical one.\<close>

definition idx_skip_of :: "real \<Rightarrow> nat \<Rightarrow> nat \<Rightarrow> nat list \<Rightarrow> nat list \<Rightarrow> nat list" where
  "idx_skip_of p h w hs ws =
     [k \<leftarrow> [0..<length hs].
        \<bar>real (hs ! k) - real h\<bar> > p * real h \<or> \<bar>real (ws ! k) - real w\<bar> > p * real w]"

text \<open>
  Lines 135 to 137, on one cell: first the cells equal to 1 are set to 0, then the cells
  equal to 3 or 2 are set to 1; any other cell keeps its value.
\<close>

definition collapse_cell :: "npfloat \<Rightarrow> npfloat" where
  "collapse_cell v =
     (let v1 = (if np_eq v 1 then Fin 0 else v)
      in if np_eq v1 3 \<or> np_eq v1 2 then Fin 1 else v1)"

definition collapse_raster :: "raster \<Rightarrow> raster" where
  "collapse_raster im = map (map collapse_cell) im"

text \<open>
  Lines 132 to 142, the body of the loop for the image \<open>k\<close>: a skipped image is left as
  it is, any other is collapsed and resized. \<^verbatim>\<open>skimage.transform.resize\<close> is a library
  routine and can raise (it raises \<open>ValueError\<close> on an image or a target shape without
  pixels, for one); it is the parameter \<open>rsz\<close>, which returns an error or a raster of
  the requested height and width.
\<close>

definition format_image ::
  "(raster \<Rightarrow> nat \<Rightarrow> nat \<Rightarrow> py_error + raster) \<Rightarrow> nat \<Rightarrow> nat \<Rightarrow> nat list \<Rightarrow> raster list \<Rightarrow>
   nat \<Rightarrow> py_error + raster" where
  "format_image rsz h w skip ims k =
     (if k \<in> set skip then Inr (ims ! k) else rsz (collapse_raster (ims ! k)) h w)"

text \<open>The loop of line 132 over the indices \<open>ks\<close>; it stops at the first error.\<close>

fun format_loop ::
  "(raster \<Rightarrow> nat \<Rightarrow> nat \<Rightarrow> py_error + raster) \<Rightarrow> nat \<Rightarrow> nat \<Rightarrow> nat list \<Rightarrow> raster list \<Rightarrow>
   nat list \<Rightarrow> py_error + raster list" where
  "format_loop rsz h w skip ims [] = Inr []"
| "format_loop rsz h w skip ims (k # ks) =
     (case format_image rsz h w skip ims k of
        Inl e \<Rightarrow> Inl e
      | Inr im \<Rightarrow>
          (case format_loop rsz h w skip ims ks of
             Inl e \<Rightarrow> Inl e
           | Inr rest \<Rightarrow> Inr (im # rest)))"

definition format_images ::
  "(raster \<Rightarrow> nat \<Rightarrow> nat \<Rightarrow> py_error + raster) \<Rightarrow> nat \<Rightarrow> nat \<Rightarrow> nat list \<Rightarrow> raster list \<Rightarrow>
   py_error + raster list" where
  "format_images rsz h w skip ims = format_loop rsz h w skip ims [0..<length ims]"

text \<open>Lines 148 to 152: the values of pixel \<open>(i, j)\<close> over the images that are neither
  cloudy nor skipped.\<close>

definition pixel_values :: "raster list \<Rightarrow> real list \<Rightarrow> nat list \<Rightarrow> nat \<Rightarrow> nat \<Rightarrow> npfloat list" where
  "pixel_values ims cc skip i j =
     map (\<lambda>k. ims ! k ! i ! j)
       [k \<leftarrow> [0..<length ims]. \<not> (cc ! k > 1 / 10 \<or> k \<in> set skip)]"

text \<open>Lines 145 to 153.\<close>

definition im_av_of :: "raster list \<Rightarrow> real list \<Rightarrow> nat list \<Rightarrow> nat \<Rightarrow> nat \<Rightarrow> raster" where
  "im_av_of ims cc skip h w =
     map (\<lambda>i. map (\<lambda>j. nanmean (pixel_values ims cc skip i j)) [0..<w]) [0..<h]"

text \<open>
  Lines 157 to 160. The index lists \<^verbatim>\<open>[0,-1]\<close> name the first and the last column, then
  the first and the last row; numpy raises \<open>IndexError\<close> when that axis has size 0.
\<close>

definition im_bin_of :: "real \<Rightarrow> nat \<Rightarrow> nat \<Rightarrow> raster \<Rightarrow> py_error + bool list list" where
  "im_bin_of p h w av =
     (let b0 = map (map (\<lambda>v. np_gt v (1 - p) \<or> np_lt v p)) av
      in if w = 0 then Inl IndexError
         else (let b1 = map (\<lambda>row. (row[0 := False])[w - 1 := False]) b0
               in if h = 0 then Inl IndexError
                  else Inr ((b1[0 := replicate w False])[h - 1 := replicate w False])))"

text \<open>Lines 183 and 184: the difference to the rounded average, \<open>NaN\<close> outside the mask.\<close>

definition im_diff_of :: "raster \<Rightarrow> bool list list \<Rightarrow> raster \<Rightarrow> nat \<Rightarrow> nat \<Rightarrow> raster" where
  "im_diff_of av bin im h w =
     map (\<lambda>i. map (\<lambda>j. if bin ! i ! j then np_abs_diff (np_round (av ! i ! j)) (im ! i ! j)
                        else NaN) [0..<w]) [0..<h]"

text \<open>\<^verbatim>\<open>sum(sum(a))\<close> of a boolean array: the number of its true cells.\<close>

definition count_true :: "bool list list \<Rightarrow> nat" where
  "count_true b = sum_list (map (\<lambda>row. length (filter (\<lambda>c. c) row)) b)"

definition count_eq1 :: "raster \<Rightarrow> nat" where
  "count_eq1 d = count_true (map (map (\<lambda>v. np_eq v 1)) d)"

text \<open>Line 186.\<close>

definition prc_change_of :: "raster \<Rightarrow> bool list list \<Rightarrow> raster \<Rightarrow> nat \<Rightarrow> nat \<Rightarrow> npquot" where
  "prc_change_of av bin im h w =
     true_divide (count_eq1 (im_diff_of av bin im h w)) (count_true bin)"

text \<open>
  Lines 170 to 195, the loop over \<open>k\<close> with the list \<open>idx_remove\<close> as accumulator: a
  skipped image is appended, and so is an image whose \<open>prc_change\<close> is greater than
  \<open>prc_image\<close>.
\<close>

fun remove_loop ::
  "real \<Rightarrow> raster \<Rightarrow> bool list list \<Rightarrow> raster list \<Rightarrow> nat \<Rightarrow> nat \<Rightarrow> nat list \<Rightarrow>
   nat list \<Rightarrow> nat list \<Rightarrow> nat list" where
  "remove_loop p av bin ims h w skip [] idx_remove = idx_remove"
| "remove_loop p av bin ims h w skip (k # ks) idx_remove =
     (if k \<in> set skip then remove_loop p av bin ims h w skip ks (idx_remove @ [k])
      else if quot_gt (prc_change_of av bin (ims ! k) h w) p
           then remove_loop p av bin ims h w skip ks (idx_remove @ [k])
           else remove_loop p av bin ims h w skip ks idx_remove)"

record qa_result =
  qa_height :: nat
  qa_width :: nat
  qa_idx_skip :: "nat list"
  qa_ims :: "raster list"
  qa_im_av :: raster
  qa_im_bin :: "bool list list"
  qa_idx_remove :: "nat list"

text \<open>
  The stage as a whole, lines 113 to 195, from the stack of classified images and their
  cloud covers. \<open>qa_ims\<close> is the stack after line 142, the collapsed and resized images
  with the skipped ones unchanged.
\<close>

definition consensus_filter ::
  "(raster \<Rightarrow> nat \<Rightarrow> nat \<Rightarrow> py_error + raster) \<Rightarrow> settings \<Rightarrow> raster list \<Rightarrow> real list \<Rightarrow>
   py_error + qa_result" where
  "consensus_filter rsz s im_classif cloud_cover =
     (case canonical_size im_classif of
        Inl e \<Rightarrow> Inl e
      | Inr (h, w) \<Rightarrow>
          (let skip = idx_skip_of (prc_image s) h w (map shape0 im_classif) (map shape1 im_classif)
           in case format_images rsz h w skip im_classif of
                Inl e \<Rightarrow> Inl e
              | Inr ims \<Rightarrow>
                  (let av = im_av_of ims cloud_cover skip h w
                   in case im_bin_of (prc_pixel s) h w av of
                        Inl e \<Rightarrow> Inl e
                      | Inr bin \<Rightarrow>
                          Inr \<lparr>qa_height = h, qa_width = w, qa_idx_skip = skip, qa_ims = ims,
                               qa_im_av = av, qa_im_bin = bin,
                               qa_idx_remove =
                                 remove_loop (prc_image s) av bin ims h w skip
                                   [0..<length ims] []\<rparr>)))"

text \<open>
  Rounding to the nearest integer with a half going to the even neighbour, stated on its
  own: \<open>n\<close> is at most a half away from \<open>x\<close>, and is even when it is exactly a half
  away.
\<close>

definition nearest_even_int :: "real \<Rightarrow> int \<Rightarrow> bool" where
  "nearest_even_int x n \<longleftrightarrow>
     \<bar>x - real_of_int n\<bar> \<le> 1 / 2 \<and> (\<bar>x - real_of_int n\<bar> = 1 / 2 \<longrightarrow> even n)"

text \<open>
  The pixels of the confidence mask, and those among them where the image has a value
  that differs by exactly 1 from the consensus rounded to the nearest integer: the two
  sets whose sizes make the divergence of an image.
\<close>

definition confident_pixels :: "bool list list \<Rightarrow> nat \<Rightarrow> nat \<Rightarrow> (nat \<times> nat) set" where
  "confident_pixels bin h w = {(i, j). i < h \<and> j < w \<and> bin ! i ! j}"

definition diverging_pixels ::
  "raster \<Rightarrow> bool list list \<Rightarrow> raster \<Rightarrow> nat \<Rightarrow> nat \<Rightarrow> (nat \<times> nat) set" where
  "diverging_pixels av bin im h w =
     {(i, j). (i, j) \<in> confident_pixels bin h w \<and>
              (\<exists>c v n. av ! i ! j = Fin c \<and> im ! i ! j = Fin v \<and> nearest_even_int c n \<and>
                 \<bar>real_of_int n - v\<bar> = 1)}"

section \<open>Pruning the output (lines 214 to 219 of the script)\<close>

text \<open>
  \<^verbatim>\<open>[xs[_] for _ in idx]\<close>: the entries of \<open>xs\<close> at the indices \<open>idx\<close>, in the order of
  \<open>idx\<close>; \<open>IndexError\<close> when an index is out of range.
\<close>

fun py_take :: "'a list \<Rightarrow> nat list \<Rightarrow> py_error + 'a list" where
  "py_take xs [] = Inr []"
| "py_take xs (i # idx) =
     (if i < length xs
      then (case py_take xs idx of Inl e \<Rightarrow> Inl e | Inr ys \<Rightarrow> Inr (xs ! i # ys))
      else Inl IndexError)"

text \<open>
  The dictionary \<open>output\<close> holds one list per key (\<open>dates\<close>, \<open>shorelines\<close>,
  \<open>filename\<close>, \<open>cloud_cover\<close>, \<open>geoaccuracy\<close>, \<open>idx\<close>, \<open>satname\<close>, \<open>im_classif\<close>); it
  is an association list in the order of its keys. The values are of several types in
  the script; here they are of one type \<open>'v\<close>.
\<close>

type_synonym 'v out_dict = "(string \<times> 'v list) list"

text \<open>Line 215: \<^verbatim>\<open>output.pop('im_classif')\<close> removes the key, \<open>KeyError\<close> when it is absent.\<close>

definition pop_key :: "string \<Rightarrow> 'v out_dict \<Rightarrow> py_error + 'v out_dict" where
  "pop_key key out =
     (case map_of out key of
        None \<Rightarrow> Inl KeyError
      | Some _ \<Rightarrow> Inr (filter (\<lambda>kv. fst kv \<noteq> key) out))"

text \<open>Lines 216 and 217: the indices of \<open>0 .. n - 1\<close> that are not in \<open>idx_remove\<close>.\<close>

definition idx_keep_of :: "nat \<Rightarrow> nat list \<Rightarrow> nat list" where
  "idx_keep_of n idx_remove = [i \<leftarrow> [0..<n]. i \<notin> set idx_remove]"

text \<open>Lines 218 and 219, the loop over the keys.\<close>

fun prune_keys :: "nat list \<Rightarrow> 'v out_dict \<Rightarrow> py_error + 'v out_dict" where
  "prune_keys idx_keep [] = Inr []"
| "prune_keys idx_keep ((key, xs) # out) =
     (case py_take xs idx_keep of
        Inl e \<Rightarrow> Inl e
      | Inr ys \<Rightarrow> (case prune_keys idx_keep out of
                     Inl e \<Rightarrow> Inl e
                   | Inr out' \<Rightarrow> Inr ((key, ys) # out')))"

definition cleanup_output :: "'v out_dict \<Rightarrow> nat list \<Rightarrow> py_error + 'v out_dict" where
  "cleanup_output out idx_remove =
     (case pop_key ''im_classif'' out of
        Inl e \<Rightarrow> Inl e
      | Inr out1 \<Rightarrow>
          (case map_of out1 ''dates'' of
             None \<Rightarrow> Inl KeyError
           | Some ds \<Rightarrow> prune_keys (idx_keep_of (length ds) idx_remove) out1))"

section \<open>Comparison to the surveys (lines 341 to 481 of the script)\<close>

text \<open>
  A \<^verbatim>\<open>datetime\<close> in UTC is its number of microseconds since the midnight that starts
  day 1 of the proleptic Gregorian calendar. \<^verbatim>\<open>(a - b).days\<close> is the floor of the
  difference in days, and \<^verbatim>\<open>toordinal()\<close> the number of the day.
\<close>

type_synonym datetime = int

definition us_per_day :: int where
  "us_per_day = 86400000000"

definition timedelta_days :: "datetime \<Rightarrow> datetime \<Rightarrow> int" where
  "timedelta_days a b = (a - b) div us_per_day"

definition toordinal :: "datetime \<Rightarrow> int" where
  "toordinal t = t div us_per_day + 1"

record sett =
  min_days :: int
  max_days :: int

text \<open>\<^verbatim>\<open>gt[key]\<close>: the survey dates and the surveyed chainages of one transect.\<close>

record survey =
  gt_dates :: "datetime list"
  gt_chainage :: "npfloat list"

text \<open>
  \<^verbatim>\<open>xs[i]\<close> for an integer \<open>i\<close> of either sign: from the front when \<open>i\<close> is not
  negative, from the back (\<open>-1\<close> is the last entry) when it is, and \<open>IndexError\<close> when
  \<open>i\<close> reaches beyond either end.
\<close>

definition py_index :: "'a list \<Rightarrow> int \<Rightarrow> py_error + 'a" where
  "py_index xs i =
     (if 0 \<le> i \<and> i < int (length xs) then Inr (xs ! nat i)
      else if i < 0 \<and> - int (length xs) \<le> i then Inr (xs ! nat (int (length xs) + i))
      else Inl IndexError)"

text \<open>Line 385.\<close>

definition days_diff_of :: "datetime list \<Rightarrow> datetime \<Rightarrow> int list" where
  "days_diff_of sdates date = map (\<lambda>d. timedelta_days d date) sdates"

text \<open>
  \<^verbatim>\<open>scipy.interpolate.interp1d(x, y, bounds_error=True)\<close> on two points, evaluated at
  \<open>xn\<close>: the points are sorted by \<open>x\<close>, a value outside them raises \<open>ValueError\<close>, and the
  result is on the line through them. (Two points of the same \<open>x\<close> give a quotient by
  zero, hence \<open>nan\<close>; line 397 makes the second \<open>x\<close> greater than \<open>xn\<close>, so that the
  script never gets there.)
\<close>

fun lin_interp :: "int \<Rightarrow> npfloat \<Rightarrow> int \<Rightarrow> npfloat \<Rightarrow> int \<Rightarrow> npfloat" where
  "lin_interp xlo (Fin ylo) xhi (Fin yhi) xn =
     (if xlo = xhi then NaN
      else Fin (ylo + (yhi - ylo) / real_of_int (xhi - xlo) * real_of_int (xn - xlo)))"
| "lin_interp xlo _ xhi _ xn = NaN"

definition interp1d :: "int \<Rightarrow> int \<Rightarrow> npfloat \<Rightarrow> npfloat \<Rightarrow> int \<Rightarrow> py_error + npfloat" where
  "interp1d x0 x1 y0 y1 xn =
     (let (xlo, ylo, xhi, yhi) = (if x0 \<le> x1 then (x0, y0, x1, y1) else (x1, y1, x0, y0))
      in if xn < xlo \<or> xn > xhi then Inl ValueError
         else Inr (lin_interp xlo ylo xhi yhi xn))"

text \<open>
  One turn of the loop of lines 383 to 402: the value stored in \<open>chain_int[k]\<close>, or the
  \<^verbatim>\<open>break\<close> of line 396. \<^verbatim>\<open>np.min\<close> of an empty array raises \<open>ValueError\<close>.
\<close>

datatype step = Assign npfloat | Break

definition match_date :: "sett \<Rightarrow> survey \<Rightarrow> datetime \<Rightarrow> py_error + step" where
  "match_date st gt date =
     (let days_diff = days_diff_of (gt_dates gt) date
      in if days_diff = [] then Inl ValueError
         else (let m = Min (set (map abs days_diff))
               in if m > max_days st then Inr (Assign NaN)
                  else if m < min_days st
                  then (case py_index (gt_chainage gt)
                               (int (first_index (\<lambda>d. \<bar>d\<bar> = m) days_diff)) of
                          Inl e \<Rightarrow> Inl e
                        | Inr v \<Rightarrow> Inr (Assign v))
                  else if length (filter (\<lambda>d. d > 0) days_diff) = 0 then Inr Break
                  else (let idx_after = int (first_index (\<lambda>d. d > 0) days_diff);
                            idx_before = idx_after - 1
                        in case py_index (gt_dates gt) idx_before of
                             Inl e \<Rightarrow> Inl e
                           | Inr db \<Rightarrow>
                         (case py_index (gt_dates gt) idx_after of
                             Inl e \<Rightarrow> Inl e
                           | Inr da \<Rightarrow>
                         (case py_index (gt_chainage gt) idx_before of
                             Inl e \<Rightarrow> Inl e
                           | Inr yb \<Rightarrow>
                         (case py_index (gt_chainage gt) idx_after of
                             Inl e \<Rightarrow> Inl e
                           | Inr ya \<Rightarrow>
                         (case interp1d (toordinal db) (toordinal da) yb ya (toordinal date) of
                             Inl e \<Rightarrow> Inl e
                           | Inr v \<Rightarrow> Inr (Assign v))))))))"

text \<open>
  The loop of lines 382 to 402 over the dates that are left: \<open>chain_int\<close> starts as
  \<open>NaN\<close> everywhere, so the entries from a \<^verbatim>\<open>break\<close> on stay \<open>NaN\<close>.
\<close>

fun match_loop :: "sett \<Rightarrow> survey \<Rightarrow> datetime list \<Rightarrow> py_error + npfloat list" where
  "match_loop st gt [] = Inr []"
| "match_loop st gt (date # dates) =
     (case match_date st gt date of
        Inl e \<Rightarrow> Inl e
      | Inr Break \<Rightarrow> Inr (replicate (Suc (length dates)) NaN)
      | Inr (Assign v) \<Rightarrow>
          (case match_loop st gt dates of
             Inl e \<Rightarrow> Inl e
           | Inr vs \<Rightarrow> Inr (v # vs)))"

text \<open>\<^verbatim>\<open>np.where(~idx_nan)[0]\<close>: the indices of the entries that are not \<open>NaN\<close>.\<close>

definition nonan_idx :: "npfloat list \<Rightarrow> nat list" where
  "nonan_idx vs = [k \<leftarrow> [0..<length vs]. \<not> isnan (vs ! k)]"

text \<open>Lines 359 to 363.\<close>

record 'n nonans =
  dates_nonans :: "datetime list"
  satnames_nonans :: "'n list"
  chain_nonans :: "real list"

definition remove_nans ::
  "datetime list \<Rightarrow> 'n list \<Rightarrow> npfloat list \<Rightarrow> py_error + 'n nonans" where
  "remove_nans dates satname chainage =
     (case py_take dates (nonan_idx chainage) of
        Inl e \<Rightarrow> Inl e
      | Inr ds \<Rightarrow>
          (case py_take satname (nonan_idx chainage) of
             Inl e \<Rightarrow> Inl e
           | Inr ns \<Rightarrow>
               Inr \<lparr>dates_nonans = ds, satnames_nonans = ns,
                    chain_nonans = fin_values chainage\<rparr>))"

text \<open>Lines 405 to 409: the aligned pairs of one transect.\<close>

record 'n aligned =
  chain_sat :: "real list"
  chain_sur :: "real list"
  dates_sat :: "datetime list"
  satnames :: "'n list"

definition align_transect ::
  "sett \<Rightarrow> datetime list \<Rightarrow> 'n list \<Rightarrow> npfloat list \<Rightarrow> survey \<Rightarrow> py_error + 'n aligned" where
  "align_transect st dates satname chainage gt =
     (case remove_nans dates satname chainage of
        Inl e \<Rightarrow> Inl e
      | Inr nn \<Rightarrow>
          (case match_loop st gt (dates_nonans nn) of
             Inl e \<Rightarrow> Inl e
           | Inr chain_int \<Rightarrow>
               (case py_take (dates_nonans nn) (nonan_idx chain_int) of
                  Inl e \<Rightarrow> Inl e
                | Inr ds \<Rightarrow>
                    (case py_take (satnames_nonans nn) (nonan_idx chain_int) of
                       Inl e \<Rightarrow> Inl e
                     | Inr ns \<Rightarrow>
                         Inr \<lparr>chain_sat = map (\<lambda>k. chain_nonans nn ! k) (nonan_idx chain_int),
                              chain_sur = fin_values chain_int,
                              dates_sat = ds, satnames = ns\<rparr>))))"

text \<open>
  The variables that the loop over the transects (lines 353 to 472) leaves behind: the
  pooled vectors, and \<open>chain_sat\<close> and \<open>chain_sur\<close> of the transect handled last (none
  before the first transect).
\<close>

record 'n pooled =
  chain_sat_all :: "real list"
  chain_sur_all :: "real list"
  satnames_all :: "'n list"
  last_pairs :: "(real list \<times> real list) option"

definition pooled_init :: "'n pooled" where
  "pooled_init = \<lparr>chain_sat_all = [], chain_sur_all = [], satnames_all = [], last_pairs = None\<rparr>"

text \<open>
  \<^verbatim>\<open>scipy.stats.linregress\<close> is the parameter \<open>lr\<close>, called as
  \<open>lr chain_sur chain_sat\<close>. The loop stops at the first error.
\<close>

fun transects_loop ::
  "(real list \<Rightarrow> real list \<Rightarrow> py_error + 'r) \<Rightarrow> sett \<Rightarrow> datetime list \<Rightarrow> 'n list \<Rightarrow>
   (npfloat list \<times> survey) list \<Rightarrow> 'n pooled \<Rightarrow> py_error + 'n pooled" where
  "transects_loop lr st dates satname [] acc = Inr acc"
| "transects_loop lr st dates satname ((chainage, gt) # ts) acc =
     (case align_transect st dates satname chainage gt of
        Inl e \<Rightarrow> Inl e
      | Inr a \<Rightarrow>
          (case lr (chain_sur a) (chain_sat a) of
             Inl e \<Rightarrow> Inl e
           | Inr _ \<Rightarrow>
               transects_loop lr st dates satname ts
                 \<lparr>chain_sat_all = chain_sat_all acc @ chain_sat a,
                  chain_sur_all = chain_sur_all acc @ chain_sur a,
                  satnames_all = satnames_all acc @ satnames a,
                  last_pairs = Some (chain_sat a, chain_sur a)\<rparr>))"

text \<open>
  \<^verbatim>\<open>np.mean\<close>, \<^verbatim>\<open>np.sqrt\<close>, \<^verbatim>\<open>np.std\<close> and \<^verbatim>\<open>np.percentile\<close> (linear method) on
  vectors without \<open>NaN\<close>. The mean of an empty vector is \<open>nan\<close>; so is the percentile
  here, a case the script does not reach, since \<^verbatim>\<open>linregress\<close> has raised on the empty
  vectors before.
\<close>

definition np_mean :: "real list \<Rightarrow> npfloat" where
  "np_mean xs = (if xs = [] then NaN else Fin (sum_list xs / real (length xs)))"

fun np_sqrt :: "npfloat \<Rightarrow> npfloat" where
  "np_sqrt NaN = NaN"
| "np_sqrt (Fin x) = (if x < 0 then NaN else Fin (sqrt x))"

definition np_std :: "real list \<Rightarrow> npfloat" where
  "np_std xs =
     (case np_mean xs of
        NaN \<Rightarrow> NaN
      | Fin m \<Rightarrow> np_sqrt (np_mean (map (\<lambda>x. \<bar>x - m\<bar> ^ 2) xs)))"

definition np_percentile :: "real list \<Rightarrow> real \<Rightarrow> npfloat" where
  "np_percentile xs q =
     (if xs = [] then NaN
      else (let a = sort xs;
                pos = q / 100 * real (length a - 1);
                lo = nat \<lfloor>pos\<rfloor>;
                hi = min (lo + 1) (length a - 1)
            in Fin (a ! lo + (pos - real lo) * (a ! hi - a ! lo))))"

text \<open>
  Lines 474 to 481, the statistics "for all transects together". When the loop has
  handled no transect, \<open>chain_sat_all\<close> and \<open>chain_sur_all\<close> are still the empty Python
  lists of lines 353 and 354, and their difference on line 475 raises \<open>TypeError\<close>.
\<close>

record 'r aggregate =
  ag_chain_error :: "real list"
  ag_regress :: 'r
  ag_rmse :: npfloat
  ag_mean :: npfloat
  ag_std :: npfloat
  ag_q90 :: npfloat

definition aggregate_stats ::
  "(real list \<Rightarrow> real list \<Rightarrow> py_error + 'r) \<Rightarrow> 'n pooled \<Rightarrow> py_error + 'r aggregate" where
  "aggregate_stats lr p =
     (let chain_error = map (\<lambda>(a, b). a - b) (zip (chain_sat_all p) (chain_sur_all p))
      in case last_pairs p of
           None \<Rightarrow> Inl TypeError
         | Some (sat_last, sur_last) \<Rightarrow>
             (case lr sur_last sat_last of
                Inl e \<Rightarrow> Inl e
              | Inr reg \<Rightarrow>
                  Inr \<lparr>ag_chain_error = chain_error, ag_regress = reg,
                       ag_rmse = np_sqrt (np_mean (map (\<lambda>e. e ^ 2) chain_error)),
                       ag_mean = np_mean chain_error,
                       ag_std = np_std chain_error,
                       ag_q90 = np_percentile (map abs chain_error) 90\<rparr>))"

definition validation ::
  "(real list \<Rightarrow> real list \<Rightarrow> py_error + 'r) \<Rightarrow> sett \<Rightarrow> datetime list \<Rightarrow> 'n list \<Rightarrow>
   (npfloat list \<times> survey) list \<Rightarrow> py_error + 'r aggregate" where
  "validation lr st dates satname ts =
     (case transects_loop lr st dates satname ts pooled_init of
        Inl e \<Rightarrow> Inl e
      | Inr p \<Rightarrow> aggregate_stats lr p)"

text \<open>
  \<^verbatim>\<open>scipy.stats.linregress(x, y)\<close>, a library routine, as its documentation and source
  have it: the least-squares line of \<open>y\<close> against \<open>x\<close>, with slope \<open>ssxym / ssxm\<close>,
  intercept \<open>ymean - slope * xmean\<close> and correlation \<open>ssxym / sqrt (ssxm * ssym)\<close>;
  \<open>ValueError\<close> on empty input, on vectors of different lengths, and on two or more
  points that all have the same \<open>x\<close>. The result is (slope, intercept, rvalue).
\<close>

definition linregress :: "real list \<Rightarrow> real list \<Rightarrow> py_error + (npfloat \<times> npfloat \<times> npfloat)" where
  "linregress x y =
     (if x = [] \<or> y = [] then Inl ValueError
      else if length x \<noteq> length y then Inl ValueError
      else if Max (set x) = Min (set x) \<and> length x > 1 then Inl ValueError
      else (let n = real (length x);
                xmean = sum_list x / n;
                ymean = sum_list y / n;
                ssxm = sum_list (map (\<lambda>a. (a - xmean) ^ 2) x) / n;
                ssym = sum_list (map (\<lambda>b. (b - ymean) ^ 2) y) / n;
                ssxym = sum_list (map (\<lambda>(a, b). (a - xmean) * (b - ymean)) (zip x y)) / n;
                r = (if ssxm = 0 \<or> ssym = 0 then 0
                     else max (- 1) (min 1 (ssxym / sqrt (ssxm * ssym))))
            in if ssxm = 0 then Inr (NaN, NaN, Fin r)
               else Inr (Fin (ssxym / ssxm), Fin (ymean - ssxym / ssxm * xmean), Fin r)))"

text \<open>
  \<open>taken_at idx xs ys\<close>: the list \<open>ys\<close> is \<open>xs\<close> read at the indices \<open>idx\<close>, entry by
  entry. It states that a filtered collection lines up with its original.
\<close>

definition taken_at :: "nat list \<Rightarrow> 'a list \<Rightarrow> 'a list \<Rightarrow> bool" where
  "taken_at idx xs ys \<longleftrightarrow>
     length ys = length idx \<and> (\<forall>j<length idx. idx ! j < length xs \<and> ys ! j = xs ! (idx ! j))"

text \<open>
  Names for the quantities that the loop body computes from \<open>days_diff\<close>: the smallest
  absolute offset in days, the index of the first survey date at that offset, and the
  index of the first survey date with a positive offset.
\<close>

definition min_abs_offset :: "survey \<Rightarrow> datetime \<Rightarrow> int" where
  "min_abs_offset gt date = Min (set (map abs (days_diff_of (gt_dates gt) date)))"

definition idx_after_of :: "survey \<Rightarrow> datetime \<Rightarrow> nat" where
  "idx_after_of gt date = first_index (\<lambda>d. d > 0) (days_diff_of (gt_dates gt) date)"

definition idx_closest_of :: "survey \<Rightarrow> datetime \<Rightarrow> nat" where
  "idx_closest_of gt date =
     first_index (\<lambda>d. \<bar>d\<bar> = min_abs_offset gt date) (days_diff_of (gt_dates gt) date)"

section \<open>Properties of the consensus filter\<close>

lemma first_index_le: "first_index P xs \<le> length xs"
  by (induction xs) auto

lemma first_index_props:
  "\<exists>x\<in>set xs. P x \<Longrightarrow> first_index P xs < length xs \<and> P (xs ! first_index P xs)"
  by (induction xs) auto

lemma first_index_least: "j < first_index P xs \<Longrightarrow> \<not> P (xs ! j)"
proof (induction xs arbitrary: j)
  case Nil then show ?case by simp
next
  case (Cons x xs)
  then show ?case by (cases j) (auto split: if_splits)
qed

lemma np_unique_props:
  "set (np_unique ds) = set ds" "sorted (np_unique ds)" "distinct (np_unique ds)"
  by (simp_all add: np_unique_def)

lemma canonical_dim_mode:
  assumes "ds \<noteq> []"
  shows "\<exists>m. canonical_dim ds = Inr m \<and> m \<in> set ds \<and>
     (\<forall>x\<in>set ds. count_list ds x \<le> count_list ds m \<and>
        (count_list ds x = count_list ds m \<longrightarrow> m \<le> x))"
proof (cases "length (np_unique ds) = 1")
  case True
  then obtain u where u: "np_unique ds = [u]"
    by (cases "np_unique ds") auto
  then have "set ds = {u}" using np_unique_props(1)[of ds] by simp
  moreover have "ds ! 0 \<in> set ds" using assms by simp
  ultimately show ?thesis using True by (auto simp: canonical_dim_def)
next
  case False
  let ?us = "np_unique ds"
  let ?cs = "map (\<lambda>u. count_list ds u) ?us"
  let ?P = "\<lambda>c. c = Max (set ?cs)"
  let ?i = "first_index ?P ?cs"
  have ne: "?us \<noteq> []" using assms np_unique_props(1)[of ds] by auto
  then have cne: "?cs \<noteq> []" by simp
  have "Max (set ?cs) \<in> set ?cs" using cne by (intro Max_in) auto
  then have ex: "\<exists>x\<in>set ?cs. ?P x" by blast
  from first_index_props[OF ex] have i: "?i < length ?us" and ci: "?cs ! ?i = Max (set ?cs)"
    by auto
  have cd: "canonical_dim ds = Inr (?us ! ?i)"
    using False cne by (simp add: canonical_dim_def np_argmax_def Let_def)
  have mem: "?us ! ?i \<in> set ds" using i np_unique_props(1)[of ds] nth_mem by blast
  have cm: "count_list ds (?us ! ?i) = Max (set ?cs)" using ci i by simp
  have "count_list ds x \<le> count_list ds (?us ! ?i) \<and>
        (count_list ds x = count_list ds (?us ! ?i) \<longrightarrow> ?us ! ?i \<le> x)" if x: "x \<in> set ds" for x
  proof -
    from x obtain j where j: "j < length ?us" "?us ! j = x"
      using np_unique_props(1)[of ds] by (metis in_set_conv_nth)
    have "count_list ds x \<in> set ?cs" using j by force
    then have le: "count_list ds x \<le> Max (set ?cs)" by simp
    have "?us ! ?i \<le> x" if eq: "count_list ds x = count_list ds (?us ! ?i)"
    proof -
      have "\<not> j < ?i"
      proof
        assume "j < ?i"
        from first_index_least[OF this] have "?cs ! j \<noteq> Max (set ?cs)" by simp
        then show False using j eq cm by simp
      qed
      then have "?i \<le> j" by simp
      then show ?thesis using np_unique_props(2)[of ds] j sorted_nth_mono by blast
    qed
    then show ?thesis using le cm by simp
  qed
  then show ?thesis using cd mem by blast
qed

lemma collapse_cell_cases:
  "collapse_cell v =
     (if v = Fin 0 \<or> v = Fin 1 then Fin 0 else if v = Fin 2 \<or> v = Fin 3 then Fin 1 else v)"
  by (cases v) (auto simp: collapse_cell_def Let_def)

lemma format_loop_InrD:
  "format_loop rsz h w skip ims ks = Inr fims \<Longrightarrow>
     length fims = length ks \<and>
     (\<forall>n<length ks. format_image rsz h w skip ims (ks ! n) = Inr (fims ! n))"
proof (induction ks arbitrary: fims)
  case Nil
  then show ?case by simp
next
  case (Cons k ks)
  from Cons.prems obtain im rest where im: "format_image rsz h w skip ims k = Inr im"
    and rest: "format_loop rsz h w skip ims ks = Inr rest" and fims: "fims = im # rest"
    by (auto split: sum.splits)
  from Cons.IH[OF rest] have ih: "length rest = length ks"
    "\<forall>n<length ks. format_image rsz h w skip ims (ks ! n) = Inr (rest ! n)" by simp_all
  have "format_image rsz h w skip ims ((k # ks) ! n) = Inr (fims ! n)" if "n < length (k # ks)" for n
    using that im ih(2) fims by (cases n) simp_all
  then show ?case using ih(1) fims by simp
qed

lemma format_loop_total:
  "\<forall>k\<in>set ks. \<exists>im. format_image rsz h w skip ims k = Inr im \<Longrightarrow>
     \<exists>fims. format_loop rsz h w skip ims ks = Inr fims"
proof (induction ks)
  case Nil
  then show ?case by simp
next
  case (Cons k ks)
  from Cons.prems obtain im where im: "format_image rsz h w skip ims k = Inr im" by auto
  from Cons.prems have "\<forall>k\<in>set ks. \<exists>im. format_image rsz h w skip ims k = Inr im" by simp
  from Cons.IH[OF this] obtain rest where "format_loop rsz h w skip ims ks = Inr rest" by blast
  then show ?case using im by simp
qed

lemma format_loop_fails:
  "k \<in> set ks \<Longrightarrow> format_image rsz h w skip ims k = Inl e \<Longrightarrow>
     \<exists>e'. format_loop rsz h w skip ims ks = Inl e'"
proof (induction ks)
  case Nil
  then show ?case by simp
next
  case (Cons a ks)
  show ?case
  proof (cases "format_image rsz h w skip ims a")
    case (Inl e1)
    then show ?thesis by simp
  next
    case (Inr im)
    then have "k \<in> set ks" using Cons.prems by auto
    from Cons.IH[OF this Cons.prems(2)] obtain e' where "format_loop rsz h w skip ims ks = Inl e'"
      by blast
    then show ?thesis using Inr by simp
  qed
qed

lemma format_images_InrD:
  assumes "format_images rsz h w skip ims = Inr fims"
  shows "length fims = length ims"
    and "k < length ims \<Longrightarrow> format_image rsz h w skip ims k = Inr (fims ! k)"
proof -
  note D = format_loop_InrD[OF assms[unfolded format_images_def]]
  show "length fims = length ims" using D by simp
  show "format_image rsz h w skip ims k = Inr (fims ! k)" if "k < length ims"
    using D that by simp
qed

lemma format_images_total:
  assumes "\<forall>k<length ims. k \<notin> set skip \<longrightarrow> (\<exists>im. rsz (collapse_raster (ims ! k)) h w = Inr im)"
  shows "\<exists>fims. format_images rsz h w skip ims = Inr fims"
  unfolding format_images_def
proof (rule format_loop_total)
  show "\<forall>k\<in>set [0..<length ims]. \<exists>im. format_image rsz h w skip ims k = Inr im"
    using assms by (simp add: format_image_def)
qed

text \<open>
  Claim C2, as the code has it. For every image that is not skipped, the raster handed to
  the resize is the collapsed raster, and the collapse maps the classes 0 and 1 to 0,
  the classes 2 and 3 to 1, and leaves every other cell (a \<open>NaN\<close> cell of a masked
  pixel, for one) as it is; so a cell whose class is one of 0, 1, 2, 3 is 0 or 1 after
  the collapse. The claim as written (every class other than class 0 becomes 1, every
  cell is 0 or 1) fails at class 1 and at \<open>NaN\<close>: see the counterexample.
\<close>

theorem collapse_binary:
  assumes "k < length ims" "k \<notin> set skip" "i < length (ims ! k)" "j < length (ims ! k ! i)"
  shows "format_image rsz h w skip ims k = rsz (collapse_raster (ims ! k)) h w \<and>
         (\<forall>fims. format_images rsz h w skip ims = Inr fims \<longrightarrow>
            rsz (collapse_raster (ims ! k)) h w = Inr (fims ! k)) \<and>
         collapse_raster (ims ! k) ! i ! j =
           (if ims ! k ! i ! j = Fin 0 \<or> ims ! k ! i ! j = Fin 1 then Fin 0
            else if ims ! k ! i ! j = Fin 2 \<or> ims ! k ! i ! j = Fin 3 then Fin 1
            else ims ! k ! i ! j) \<and>
         (ims ! k ! i ! j \<in> {Fin 0, Fin 1, Fin 2, Fin 3} \<longrightarrow>
            collapse_raster (ims ! k) ! i ! j \<in> {Fin 0, Fin 1})"
proof -
  have a: "format_image rsz h w skip ims k = rsz (collapse_raster (ims ! k)) h w"
    using assms(2) by (simp add: format_image_def)
  have a': "\<forall>fims. format_images rsz h w skip ims = Inr fims \<longrightarrow>
            rsz (collapse_raster (ims ! k)) h w = Inr (fims ! k)"
  proof (intro allI impI)
    fix fims assume f: "format_images rsz h w skip ims = Inr fims"
    show "rsz (collapse_raster (ims ! k)) h w = Inr (fims ! k)"
      using format_images_InrD(2)[OF f assms(1)] a by simp
  qed
  have b: "collapse_raster (ims ! k) ! i ! j = collapse_cell (ims ! k ! i ! j)"
    using assms(3,4) by (simp add: collapse_raster_def)
  have c: "collapse_raster (ims ! k) ! i ! j =
           (if ims ! k ! i ! j = Fin 0 \<or> ims ! k ! i ! j = Fin 1 then Fin 0
            else if ims ! k ! i ! j = Fin 2 \<or> ims ! k ! i ! j = Fin 3 then Fin 1
            else ims ! k ! i ! j)"
    unfolding b by (rule collapse_cell_cases)
  have d: "ims ! k ! i ! j \<in> {Fin 0, Fin 1, Fin 2, Fin 3} \<longrightarrow>
            collapse_raster (ims ! k) ! i ! j \<in> {Fin 0, Fin 1}"
    unfolding c by auto
  show ?thesis by (rule conjI[OF a conjI[OF a' conjI[OF c d]]])
qed

theorem collapse_binary_counterexample:
  "collapse_raster [[Fin 0, Fin 1, Fin 2, Fin 3, NaN]] = [[Fin 0, Fin 0, Fin 1, Fin 1, NaN]]"
  by (simp add: collapse_raster_def collapse_cell_def)

theorem collapse_binary_witness:
  "format_image (\<lambda>im h w. Inr im) 1 2 [] [[[Fin 1, Fin 3]]] 0 = Inr (collapse_raster [[Fin 1, Fin 3]]) \<and>
   format_images (\<lambda>im h w. Inr im) 1 2 [] [[[Fin 1, Fin 3]]] = Inr [[[Fin 0, Fin 1]]] \<and>
   collapse_raster [[Fin 1, Fin 3]] ! 0 ! 1 = Fin 1 \<and>
   collapse_raster [[Fin 1, Fin 3]] ! 0 ! 1 \<in> {Fin 0, Fin 1}"
proof -
  have f: "format_images (\<lambda>im h w. Inr im) 1 2 [] [[[Fin 1, Fin 3]]] = Inr [[[Fin 0, Fin 1]]]"
    by code_simp
  note t = collapse_binary [of 0 "[[[Fin 1, Fin 3]]]" "[]" 0 1 "\<lambda>im h w. Inr im" 1 2]
  have "format_image (\<lambda>im h w. Inr im) 1 2 [] [[[Fin 1, Fin 3]]] 0 =
      Inr (collapse_raster ([[[Fin 1, Fin 3]]] ! 0)) \<and>
    collapse_raster ([[[Fin 1, Fin 3]]] ! 0) ! 0 ! 1 = Fin 1 \<and>
    collapse_raster ([[[Fin 1, Fin 3]]] ! 0) ! 0 ! 1 \<in> {Fin 0, Fin 1}"
    using t by simp
  then show ?thesis using f by simp
qed

lemma length_im_av: "length (im_av_of ims cc skip h w) = h"
  by (simp add: im_av_of_def)

lemma im_av_nth:
  "i < h \<Longrightarrow> j < w \<Longrightarrow> im_av_of ims cc skip h w ! i ! j = nanmean (pixel_values ims cc skip i j)"
  by (simp add: im_av_of_def)

lemma im_av_row: "i < h \<Longrightarrow> length (im_av_of ims cc skip h w ! i) = w"
  by (simp add: im_av_of_def)

lemma im_bin_shape:
  assumes "im_bin_of p h w av = Inr bin" "length av = h" "\<forall>i<h. length (av ! i) = w"
  shows "0 < h \<and> 0 < w \<and> length bin = h \<and> (\<forall>i<h. length (bin ! i) = w)"
  using assms by (auto simp: im_bin_of_def Let_def nth_list_update split: if_splits)

lemma im_bin_nth:
  assumes "im_bin_of p h w av = Inr bin" "length av = h" "\<forall>i<h. length (av ! i) = w"
    "i < h" "j < w"
  shows "bin ! i ! j \<longleftrightarrow>
     (np_gt (av ! i ! j) (1 - p) \<or> np_lt (av ! i ! j) p) \<and>
       0 < i \<and> i + 1 < h \<and> 0 < j \<and> j + 1 < w"
proof -
  let ?f = "\<lambda>v. np_gt v (1 - p) \<or> np_lt v p"
  let ?b1 = "map (\<lambda>row. (row[0 := False])[w - 1 := False]) (map (map ?f) av)"
  have bin: "bin = (?b1[0 := replicate w False])[h - 1 := replicate w False]"
    using assms(1) by (simp add: im_bin_of_def Let_def split: if_splits)
  have row: "?b1 ! i ! j = (if j = w - 1 \<or> j = 0 then False else ?f (av ! i ! j))"
    using assms(2-5) by (simp add: nth_list_update)
  have "bin ! i = (if i = h - 1 \<or> i = 0 then replicate w False else ?b1 ! i)"
    unfolding bin using assms(2,4) by (simp add: nth_list_update)
  then have "bin ! i ! j = (if i = h - 1 \<or> i = 0 then False else ?b1 ! i ! j)"
    using assms(5) by simp
  then show ?thesis unfolding row using assms(4,5) by auto
qed

lemma im_bin_total:
  "0 < h \<Longrightarrow> 0 < w \<Longrightarrow> \<exists>bin. im_bin_of p h w av = Inr bin"
  by (simp add: im_bin_of_def Let_def)

lemma im_bin_error:
  "h = 0 \<or> w = 0 \<Longrightarrow> im_bin_of p h w av = Inl IndexError"
  by (auto simp: im_bin_of_def Let_def)

lemma consensus_filter_InrD:
  assumes "consensus_filter rsz s ims cc = Inr r"
  shows cf_size: "canonical_size ims = Inr (qa_height r, qa_width r)"
    and cf_skip: "qa_idx_skip r =
      idx_skip_of (prc_image s) (qa_height r) (qa_width r) (map shape0 ims) (map shape1 ims)"
    and cf_ims: "format_images rsz (qa_height r) (qa_width r) (qa_idx_skip r) ims = Inr (qa_ims r)"
    and cf_av: "qa_im_av r = im_av_of (qa_ims r) cc (qa_idx_skip r) (qa_height r) (qa_width r)"
    and cf_bin: "im_bin_of (prc_pixel s) (qa_height r) (qa_width r) (qa_im_av r) = Inr (qa_im_bin r)"
    and cf_remove: "qa_idx_remove r =
      remove_loop (prc_image s) (qa_im_av r) (qa_im_bin r) (qa_ims r) (qa_height r) (qa_width r)
        (qa_idx_skip r) [0..<length (qa_ims r)] []"
proof -
  from assms obtain h w where cs: "canonical_size ims = Inr (h, w)"
    by (auto simp: consensus_filter_def split: sum.splits)
  define skip where "skip = idx_skip_of (prc_image s) h w (map shape0 ims) (map shape1 ims)"
  from assms cs obtain fims where f: "format_images rsz h w skip ims = Inr fims"
    by (auto simp: consensus_filter_def Let_def skip_def split: sum.splits)
  define av where "av = im_av_of fims cc skip h w"
  from assms cs f obtain bin where b: "im_bin_of (prc_pixel s) h w av = Inr bin"
    by (auto simp: consensus_filter_def Let_def skip_def av_def split: sum.splits)
  from assms cs f b have r: "r = \<lparr>qa_height = h, qa_width = w, qa_idx_skip = skip, qa_ims = fims,
      qa_im_av = av, qa_im_bin = bin,
      qa_idx_remove = remove_loop (prc_image s) av bin fims h w skip [0..<length fims] []\<rparr>"
    by (simp add: consensus_filter_def Let_def skip_def av_def)
  show "canonical_size ims = Inr (qa_height r, qa_width r)" unfolding r using cs by simp
  show "qa_idx_skip r =
      idx_skip_of (prc_image s) (qa_height r) (qa_width r) (map shape0 ims) (map shape1 ims)"
    unfolding r by (simp add: skip_def)
  show "format_images rsz (qa_height r) (qa_width r) (qa_idx_skip r) ims = Inr (qa_ims r)"
    unfolding r using f by simp
  show "qa_im_av r = im_av_of (qa_ims r) cc (qa_idx_skip r) (qa_height r) (qa_width r)"
    unfolding r by (simp add: av_def)
  show "im_bin_of (prc_pixel s) (qa_height r) (qa_width r) (qa_im_av r) = Inr (qa_im_bin r)"
    unfolding r using b by simp
  show "qa_idx_remove r =
      remove_loop (prc_image s) (qa_im_av r) (qa_im_bin r) (qa_ims r) (qa_height r) (qa_width r)
        (qa_idx_skip r) [0..<length (qa_ims r)] []"
    unfolding r by simp
qed

lemma cf_length_ims:
  assumes "consensus_filter rsz s ims cc = Inr r"
  shows "length (qa_ims r) = length ims"
  by (rule format_images_InrD(1)[OF cf_ims[OF assms]])

lemma consensus_filter_av_shape:
  assumes "consensus_filter rsz s ims cc = Inr r"
  shows "length (qa_im_av r) = qa_height r"
    and "\<forall>i<qa_height r. length (qa_im_av r ! i) = qa_width r"
proof -
  show "length (qa_im_av r) = qa_height r"
    by (subst cf_av [OF assms]) (rule length_im_av)
  show "\<forall>i<qa_height r. length (qa_im_av r ! i) = qa_width r"
    by (subst cf_av [OF assms]) (simp add: im_av_row)
qed

lemma consensus_filter_total:
  assumes "canonical_size ims = Inr (h, w)" "0 < h" "0 < w"
    "format_images rsz h w (idx_skip_of (prc_image s) h w (map shape0 ims) (map shape1 ims)) ims =
       Inr fims"
  shows "\<exists>r. consensus_filter rsz s ims cc = Inr r"
proof -
  obtain bin where "im_bin_of (prc_pixel s) h w
      (im_av_of fims cc (idx_skip_of (prc_image s) h w (map shape0 ims) (map shape1 ims)) h w) = Inr bin"
    using im_bin_total[OF assms(2,3)] by blast
  then show ?thesis using assms(1,4) by (simp add: consensus_filter_def Let_def)
qed

lemma fin_values_all_nan: "\<forall>v\<in>set vs. v = NaN \<Longrightarrow> fin_values vs = []"
  by (induction vs) auto

lemma np_gt_iff: "np_gt v c \<longleftrightarrow> (\<exists>x. v = Fin x \<and> c < x)"
  by (cases v) auto

lemma np_lt_iff: "np_lt v c \<longleftrightarrow> (\<exists>x. v = Fin x \<and> x < c)"
  by (cases v) auto

text \<open>
  Claim C7. When the stage returns, the confidence mask is true at pixel \<open>(i, j)\<close>
  exactly when the consensus value there is a number greater than \<open>1 - prc_pixel\<close> or
  less than \<open>prc_pixel\<close> and the pixel lies in none of the first row, the last row,
  the first column and the last column; a pixel whose consensus value is \<open>NaN\<close> is
  never in the mask, and the consensus value is \<open>NaN\<close> at a pixel where every image is
  cloudy, skipped or without a value.
\<close>

theorem confidence_mask_iff:
  assumes "consensus_filter rsz s ims cc = Inr r" "i < qa_height r" "j < qa_width r"
  shows "(qa_im_bin r ! i ! j \<longleftrightarrow>
           (\<exists>x. qa_im_av r ! i ! j = Fin x \<and> (1 - prc_pixel s < x \<or> x < prc_pixel s)) \<and>
           0 < i \<and> i + 1 < qa_height r \<and> 0 < j \<and> j + 1 < qa_width r) \<and>
         (qa_im_av r ! i ! j = NaN \<longrightarrow> \<not> qa_im_bin r ! i ! j) \<and>
         ((\<forall>k<length ims. 1 / 10 < cc ! k \<or> k \<in> set (qa_idx_skip r) \<or> qa_ims r ! k ! i ! j = NaN) \<longrightarrow>
            qa_im_av r ! i ! j = NaN \<and> \<not> qa_im_bin r ! i ! j)"
proof -
  note len = consensus_filter_av_shape(1) [OF assms(1)]
  note rows = consensus_filter_av_shape(2) [OF assms(1)]
  note bin = cf_bin [OF assms(1)]
  let ?pv = "pixel_values (qa_ims r) cc (qa_idx_skip r) i j"
  have "qa_im_bin r ! i ! j \<longleftrightarrow>
           (np_gt (qa_im_av r ! i ! j) (1 - prc_pixel s) \<or> np_lt (qa_im_av r ! i ! j) (prc_pixel s)) \<and>
           0 < i \<and> i + 1 < qa_height r \<and> 0 < j \<and> j + 1 < qa_width r"
    by (rule im_bin_nth[OF bin len rows assms(2,3)])
  also have "(np_gt (qa_im_av r ! i ! j) (1 - prc_pixel s) \<or> np_lt (qa_im_av r ! i ! j) (prc_pixel s)) \<longleftrightarrow>
      (\<exists>x. qa_im_av r ! i ! j = Fin x \<and> (1 - prc_pixel s < x \<or> x < prc_pixel s))"
    unfolding np_gt_iff np_lt_iff by blast
  finally have iff: "qa_im_bin r ! i ! j \<longleftrightarrow>
           (\<exists>x. qa_im_av r ! i ! j = Fin x \<and> (1 - prc_pixel s < x \<or> x < prc_pixel s)) \<and>
           0 < i \<and> i + 1 < qa_height r \<and> 0 < j \<and> j + 1 < qa_width r" .
  have nan: "qa_im_av r ! i ! j = NaN \<longrightarrow> \<not> qa_im_bin r ! i ! j"
    unfolding iff by simp
  have av: "qa_im_av r ! i ! j = nanmean ?pv"
    by (subst cf_av [OF assms(1)]) (rule im_av_nth[OF assms(2,3)])
  have none: "(\<forall>k<length ims. 1 / 10 < cc ! k \<or> k \<in> set (qa_idx_skip r) \<or> qa_ims r ! k ! i ! j = NaN) \<longrightarrow>
            qa_im_av r ! i ! j = NaN \<and> \<not> qa_im_bin r ! i ! j"
  proof
    assume a: "\<forall>k<length ims. 1 / 10 < cc ! k \<or> k \<in> set (qa_idx_skip r) \<or> qa_ims r ! k ! i ! j = NaN"
    have "\<forall>v\<in>set ?pv. v = NaN"
      using a by (auto simp: pixel_values_def cf_length_ims[OF assms(1)])
    then have "fin_values ?pv = []" by (rule fin_values_all_nan)
    then have n: "qa_im_av r ! i ! j = NaN" unfolding av by (simp add: nanmean_def)
    then show "qa_im_av r ! i ! j = NaN \<and> \<not> qa_im_bin r ! i ! j" using nan by simp
  qed
  show ?thesis by (rule conjI[OF iff conjI[OF nan none]])
qed

theorem confidence_mask_iff_witness:
  "consensus_filter (\<lambda>im h w. Inr im) \<lparr>prc_pixel = 15 / 100, prc_image = 3 / 10\<rparr>
     [[[Fin 0, Fin 0, Fin 0, Fin 0, Fin 0, Fin 0], [Fin 0, Fin 3, Fin 0, Fin 3, NaN, Fin 0],
       [Fin 0, Fin 0, Fin 0, Fin 0, Fin 0, Fin 0]],
      [[Fin 0, Fin 1, Fin 0, Fin 0, Fin 0, Fin 0], [Fin 1, Fin 2, Fin 1, Fin 0, NaN, Fin 0],
       [Fin 0, Fin 0, Fin 0, Fin 0, Fin 0, NaN]],
      [[Fin 3, Fin 3, Fin 3, Fin 3, Fin 3, Fin 3], [Fin 3, Fin 3, Fin 3, Fin 3, Fin 3, Fin 3],
       [Fin 3, Fin 3, Fin 3, Fin 3, Fin 3, Fin 3]]]
     [0, 1 / 20, 1 / 2] =
   Inr \<lparr>qa_height = 3, qa_width = 6, qa_idx_skip = [],
        qa_ims =
          [[[Fin 0, Fin 0, Fin 0, Fin 0, Fin 0, Fin 0], [Fin 0, Fin 1, Fin 0, Fin 1, NaN, Fin 0],
            [Fin 0, Fin 0, Fin 0, Fin 0, Fin 0, Fin 0]],
           [[Fin 0, Fin 0, Fin 0, Fin 0, Fin 0, Fin 0], [Fin 0, Fin 1, Fin 0, Fin 0, NaN, Fin 0],
            [Fin 0, Fin 0, Fin 0, Fin 0, Fin 0, NaN]],
           [[Fin 1, Fin 1, Fin 1, Fin 1, Fin 1, Fin 1], [Fin 1, Fin 1, Fin 1, Fin 1, Fin 1, Fin 1],
            [Fin 1, Fin 1, Fin 1, Fin 1, Fin 1, Fin 1]]],
        qa_im_av =
          [[Fin 0, Fin 0, Fin 0, Fin 0, Fin 0, Fin 0], [Fin 0, Fin 1, Fin 0, Fin (1 / 2), NaN, Fin 0],
           [Fin 0, Fin 0, Fin 0, Fin 0, Fin 0, Fin 0]],
        qa_im_bin =
          [[False, False, False, False, False, False], [False, True, True, False, False, False],
           [False, False, False, False, False, False]],
        qa_idx_remove = [2]\<rparr> \<and>
   (1::nat) < 3 \<and> (4::nat) < 6 \<and> (1::real) - 15 / 100 < 1 \<and> (0::real) < 15 / 100 \<and>
   \<not> (1 - 15 / 100 < (1::real) / 2 \<or> (1::real) / 2 < 15 / 100)"
proof -
  let ?s = "\<lparr>prc_pixel = 15 / 100, prc_image = 3 / 10\<rparr>"
  let ?ims = "[[[Fin 0, Fin 0, Fin 0, Fin 0, Fin 0, Fin 0], [Fin 0, Fin 3, Fin 0, Fin 3, NaN, Fin 0],
       [Fin 0, Fin 0, Fin 0, Fin 0, Fin 0, Fin 0]],
      [[Fin 0, Fin 1, Fin 0, Fin 0, Fin 0, Fin 0], [Fin 1, Fin 2, Fin 1, Fin 0, NaN, Fin 0],
       [Fin 0, Fin 0, Fin 0, Fin 0, Fin 0, NaN]],
      [[Fin 3, Fin 3, Fin 3, Fin 3, Fin 3, Fin 3], [Fin 3, Fin 3, Fin 3, Fin 3, Fin 3, Fin 3],
       [Fin 3, Fin 3, Fin 3, Fin 3, Fin 3, Fin 3]]]"
  let ?cc = "[0, 1 / 20, 1 / 2] :: real list"
  let ?r = "\<lparr>qa_height = 3, qa_width = 6, qa_idx_skip = [],
        qa_ims =
          [[[Fin 0, Fin 0, Fin 0, Fin 0, Fin 0, Fin 0], [Fin 0, Fin 1, Fin 0, Fin 1, NaN, Fin 0],
            [Fin 0, Fin 0, Fin 0, Fin 0, Fin 0, Fin 0]],
           [[Fin 0, Fin 0, Fin 0, Fin 0, Fin 0, Fin 0], [Fin 0, Fin 1, Fin 0, Fin 0, NaN, Fin 0],
            [Fin 0, Fin 0, Fin 0, Fin 0, Fin 0, NaN]],
           [[Fin 1, Fin 1, Fin 1, Fin 1, Fin 1, Fin 1], [Fin 1, Fin 1, Fin 1, Fin 1, Fin 1, Fin 1],
            [Fin 1, Fin 1, Fin 1, Fin 1, Fin 1, Fin 1]]],
        qa_im_av =
          [[Fin 0, Fin 0, Fin 0, Fin 0, Fin 0, Fin 0], [Fin 0, Fin 1, Fin 0, Fin (1 / 2), NaN, Fin 0],
           [Fin 0, Fin 0, Fin 0, Fin 0, Fin 0, Fin 0]],
        qa_im_bin =
          [[False, False, False, False, False, False], [False, True, True, False, False, False],
           [False, False, False, False, False, False]],
        qa_idx_remove = [2]\<rparr>"
  have e: "consensus_filter (\<lambda>im h w. Inr im) ?s ?ims ?cc = Inr ?r"
    by code_simp
  have above: "qa_im_bin ?r ! 1 ! 1 \<longleftrightarrow>
      (\<exists>x. qa_im_av ?r ! 1 ! 1 = Fin x \<and> (1 - prc_pixel ?s < x \<or> x < prc_pixel ?s)) \<and>
      (0::nat) < 1 \<and> (1::nat) + 1 < qa_height ?r \<and> (0::nat) < 1 \<and> (1::nat) + 1 < qa_width ?r"
    using confidence_mask_iff [OF e, of 1 1] by simp
  have below: "qa_im_bin ?r ! 1 ! 2 \<longleftrightarrow>
      (\<exists>x. qa_im_av ?r ! 1 ! 2 = Fin x \<and> (1 - prc_pixel ?s < x \<or> x < prc_pixel ?s)) \<and>
      (0::nat) < 1 \<and> (1::nat) + 1 < qa_height ?r \<and> (0::nat) < 2 \<and> (2::nat) + 1 < qa_width ?r"
    using confidence_mask_iff [OF e, of 1 2] by simp
  have middle: "qa_im_bin ?r ! 1 ! 3 \<longleftrightarrow>
      (\<exists>x. qa_im_av ?r ! 1 ! 3 = Fin x \<and> (1 - prc_pixel ?s < x \<or> x < prc_pixel ?s)) \<and>
      (0::nat) < 1 \<and> (1::nat) + 1 < qa_height ?r \<and> (0::nat) < 3 \<and> (3::nat) + 1 < qa_width ?r"
    using confidence_mask_iff [OF e, of 1 3] by simp
  have nan: "(\<forall>k<length ?ims. 1 / 10 < ?cc ! k \<or> k \<in> set (qa_idx_skip ?r) \<or> qa_ims ?r ! k ! 1 ! 4 = NaN) \<longrightarrow>
      qa_im_av ?r ! 1 ! 4 = NaN \<and> \<not> qa_im_bin ?r ! 1 ! 4"
    using confidence_mask_iff [OF e, of 1 4] by simp
  show ?thesis using e above below middle nan by simp
qed

lemma canonical_size_nonempty:
  assumes "ims \<noteq> []"
  shows "\<exists>h w. canonical_size ims = Inr (h, w)"
proof -
  obtain h where h: "canonical_dim (map shape0 ims) = Inr h"
    using canonical_dim_mode[of "map shape0 ims"] assms by auto
  obtain w where w: "canonical_dim (map shape1 ims) = Inr w"
    using canonical_dim_mode[of "map shape1 ims"] assms by auto
  show ?thesis using h w by (simp add: canonical_size_def)
qed

lemma canonical_dim_empty: "canonical_dim [] = Inl ValueError"
  by (simp add: canonical_dim_def np_unique_def np_argmax_def)

lemma consensus_filter_degenerate:
  assumes "canonical_size ims = Inr (h, w)" "h = 0 \<or> w = 0"
  shows "\<exists>e. consensus_filter rsz s ims cc = Inl e"
proof (cases "format_images rsz h w
    (idx_skip_of (prc_image s) h w (map shape0 ims) (map shape1 ims)) ims")
  case (Inl e)
  then show ?thesis using assms(1) by (simp add: consensus_filter_def Let_def)
next
  case (Inr fims)
  then show ?thesis
    using assms(1) im_bin_error[OF assms(2)] by (simp add: consensus_filter_def Let_def)
qed

lemma remove_loop_filter:
  "remove_loop p av bin ims h w skip ks acc =
     acc @ filter (\<lambda>k. k \<in> set skip \<or> quot_gt (prc_change_of av bin (ims ! k) h w) p) ks"
  by (induction ks arbitrary: acc) auto

lemma consensus_filter_remove:
  assumes "consensus_filter rsz s ims cc = Inr r"
  shows "qa_idx_remove r =
     filter (\<lambda>k. k \<in> set (qa_idx_skip r) \<or>
        quot_gt (prc_change_of (qa_im_av r) (qa_im_bin r) (qa_ims r ! k)
           (qa_height r) (qa_width r)) (prc_image s)) [0..<length ims]"
  unfolding cf_remove[OF assms] remove_loop_filter cf_length_ims[OF assms] by simp

lemma idx_skip_bound: "set (idx_skip_of p h w (map f ims) ws) \<subseteq> {..<length ims}"
  by (auto simp: idx_skip_of_def)

lemma skip_subset_remove:
  assumes "consensus_filter rsz s ims cc = Inr r"
  shows "set (qa_idx_skip r) \<subseteq> set (qa_idx_remove r)"
proof
  fix k assume k: "k \<in> set (qa_idx_skip r)"
  have "k < length ims"
    using k idx_skip_bound[of "prc_image s" "qa_height r" "qa_width r" shape0 ims "map shape1 ims"]
    unfolding cf_skip[OF assms, symmetric] by auto
  then show "k \<in> set (qa_idx_remove r)"
    unfolding consensus_filter_remove[OF assms] using k by simp
qed

text \<open>
  Claim C9. On a stack with no image the stage fails: \<^verbatim>\<open>np.argmax\<close> raises
  \<open>ValueError\<close> on the empty list of counts (the failure the specification calls
  EmptyStackError). On a stack with at least one image the canonical size is always
  found. The stage then aborts when the canonical height or width is 0, and it returns
  a result, with the images rejected for their size among the removed ones, when both
  are positive and the resize of every image that is not skipped returns.
\<close>

theorem empty_stack_fails:
  "consensus_filter rsz s [] ce = Inl ValueError \<and>
   (ims \<noteq> [] \<longrightarrow>
      (\<exists>h w. canonical_size ims = Inr (h, w) \<and>
         (h = 0 \<or> w = 0 \<longrightarrow> (\<exists>e. consensus_filter rsz s ims cc = Inl e)) \<and>
         (0 < h \<and> 0 < w \<and>
          (\<forall>k<length ims.
             k \<notin> set (idx_skip_of (prc_image s) h w (map shape0 ims) (map shape1 ims)) \<longrightarrow>
             (\<exists>im. rsz (collapse_raster (ims ! k)) h w = Inr im)) \<longrightarrow>
            (\<exists>r. consensus_filter rsz s ims cc = Inr r \<and>
                 set (qa_idx_skip r) \<subseteq> set (qa_idx_remove r)))))"
proof -
  have a: "consensus_filter rsz s [] ce = Inl ValueError"
    by (simp add: consensus_filter_def canonical_size_def canonical_dim_empty)
  have b: "\<exists>h w. canonical_size ims = Inr (h, w) \<and>
         (h = 0 \<or> w = 0 \<longrightarrow> (\<exists>e. consensus_filter rsz s ims cc = Inl e)) \<and>
         (0 < h \<and> 0 < w \<and>
          (\<forall>k<length ims.
             k \<notin> set (idx_skip_of (prc_image s) h w (map shape0 ims) (map shape1 ims)) \<longrightarrow>
             (\<exists>im. rsz (collapse_raster (ims ! k)) h w = Inr im)) \<longrightarrow>
            (\<exists>r. consensus_filter rsz s ims cc = Inr r \<and>
                 set (qa_idx_skip r) \<subseteq> set (qa_idx_remove r)))" if ne: "ims \<noteq> []"
  proof -
    from canonical_size_nonempty[OF ne] obtain h w where cs: "canonical_size ims = Inr (h, w)"
      by blast
    let ?skip = "idx_skip_of (prc_image s) h w (map shape0 ims) (map shape1 ims)"
    have d: "h = 0 \<or> w = 0 \<longrightarrow> (\<exists>e. consensus_filter rsz s ims cc = Inl e)"
      using consensus_filter_degenerate[OF cs] by blast
    have t: "0 < h \<and> 0 < w \<and>
          (\<forall>k<length ims. k \<notin> set ?skip \<longrightarrow> (\<exists>im. rsz (collapse_raster (ims ! k)) h w = Inr im)) \<longrightarrow>
            (\<exists>r. consensus_filter rsz s ims cc = Inr r \<and>
                 set (qa_idx_skip r) \<subseteq> set (qa_idx_remove r))"
    proof
      assume p: "0 < h \<and> 0 < w \<and>
          (\<forall>k<length ims. k \<notin> set ?skip \<longrightarrow> (\<exists>im. rsz (collapse_raster (ims ! k)) h w = Inr im))"
      then have h: "0 < h" and w: "0 < w"
        and rs: "\<forall>k<length ims. k \<notin> set ?skip \<longrightarrow> (\<exists>im. rsz (collapse_raster (ims ! k)) h w = Inr im)"
        by simp_all
      from format_images_total[of ims ?skip rsz h w, OF rs] obtain fims where
        f: "format_images rsz h w ?skip ims = Inr fims" by blast
      from consensus_filter_total[OF cs h w f] obtain r where
        r: "consensus_filter rsz s ims cc = Inr r" by blast
      have "consensus_filter rsz s ims cc = Inr r \<and> set (qa_idx_skip r) \<subseteq> set (qa_idx_remove r)"
        using r skip_subset_remove[OF r] by simp
      then show "\<exists>r. consensus_filter rsz s ims cc = Inr r \<and>
                 set (qa_idx_skip r) \<subseteq> set (qa_idx_remove r)" by (rule exI)
    qed
    have "canonical_size ims = Inr (h, w) \<and>
         (h = 0 \<or> w = 0 \<longrightarrow> (\<exists>e. consensus_filter rsz s ims cc = Inl e)) \<and>
         (0 < h \<and> 0 < w \<and>
          (\<forall>k<length ims. k \<notin> set ?skip \<longrightarrow> (\<exists>im. rsz (collapse_raster (ims ! k)) h w = Inr im)) \<longrightarrow>
            (\<exists>r. consensus_filter rsz s ims cc = Inr r \<and>
                 set (qa_idx_skip r) \<subseteq> set (qa_idx_remove r)))"
      by (rule conjI[OF cs conjI[OF d t]])
    then show ?thesis by blast
  qed
  show ?thesis using a b by blast
qed

theorem empty_stack_fails_witness:
  "consensus_filter (\<lambda>im h w. if im = [] \<or> h = 0 \<or> w = 0 then Inl ValueError else Inr im)
     \<lparr>prc_pixel = 15 / 100, prc_image = 3 / 10\<rparr> [] [] = Inl ValueError \<and>
   [[], [], [[Fin 3]]] \<noteq> ([] :: raster list) \<and>
   canonical_size [[], [], [[Fin 3]]] = Inr (0, 0) \<and>
   consensus_filter (\<lambda>im h w. if im = [] \<or> h = 0 \<or> w = 0 then Inl ValueError else Inr im)
     \<lparr>prc_pixel = 15 / 100, prc_image = 3 / 10\<rparr> [[], [], [[Fin 3]]] [0, 0, 0] = Inl ValueError \<and>
   [[[Fin 0, Fin 3], [Fin 0, Fin 3]], [[Fin 3, Fin 0], [Fin 3, Fin 0]], [[Fin 3]]] \<noteq> ([] :: raster list) \<and>
   canonical_size [[[Fin 0, Fin 3], [Fin 0, Fin 3]], [[Fin 3, Fin 0], [Fin 3, Fin 0]], [[Fin 3]]] =
     Inr (2, 2) \<and>
   idx_skip_of (3 / 10) 2 2
     (map shape0 [[[Fin 0, Fin 3], [Fin 0, Fin 3]], [[Fin 3, Fin 0], [Fin 3, Fin 0]], [[Fin 3]]])
     (map shape1 [[[Fin 0, Fin 3], [Fin 0, Fin 3]], [[Fin 3, Fin 0], [Fin 3, Fin 0]], [[Fin 3]]]) = [2] \<and>
   consensus_filter (\<lambda>im h w. if im = [] \<or> h = 0 \<or> w = 0 then Inl ValueError else Inr im)
     \<lparr>prc_pixel = 15 / 100, prc_image = 3 / 10\<rparr>
     [[[Fin 0, Fin 3], [Fin 0, Fin 3]], [[Fin 3, Fin 0], [Fin 3, Fin 0]], [[Fin 3]]] [0, 0, 0] =
     Inr \<lparr>qa_height = 2, qa_width = 2, qa_idx_skip = [2],
          qa_ims = [[[Fin 0, Fin 1], [Fin 0, Fin 1]], [[Fin 1, Fin 0], [Fin 1, Fin 0]], [[Fin 3]]],
          qa_im_av = [[Fin (1 / 2), Fin (1 / 2)], [Fin (1 / 2), Fin (1 / 2)]],
          qa_im_bin = [[False, False], [False, False]], qa_idx_remove = [2]\<rparr>"
proof -
  let ?rsz = "\<lambda>(im :: raster) (h :: nat) (w :: nat).
      if im = [] \<or> h = 0 \<or> w = 0 then Inl ValueError else Inr im"
  let ?s = "\<lparr>prc_pixel = 15 / 100, prc_image = 3 / 10\<rparr>"
  let ?deg = "[[], [], [[Fin 3]]] :: raster list"
  let ?ims = "[[[Fin 0, Fin 3], [Fin 0, Fin 3]], [[Fin 3, Fin 0], [Fin 3, Fin 0]], [[Fin 3]]] :: raster list"
  let ?r = "\<lparr>qa_height = 2, qa_width = 2, qa_idx_skip = [2],
          qa_ims = [[[Fin 0, Fin 1], [Fin 0, Fin 1]], [[Fin 1, Fin 0], [Fin 1, Fin 0]], [[Fin 3]]],
          qa_im_av = [[Fin (1 / 2), Fin (1 / 2)], [Fin (1 / 2), Fin (1 / 2)]],
          qa_im_bin = [[False, False], [False, False]], qa_idx_remove = [2]\<rparr>"
  have ned: "?deg \<noteq> []" and ne: "?ims \<noteq> []" by simp_all
  have csd: "canonical_size ?deg = Inr (0, 0)" by code_simp
  have ed: "consensus_filter ?rsz ?s ?deg [0, 0, 0] = Inl ValueError" by code_simp
  have cs: "canonical_size ?ims = Inr (2, 2)" by code_simp
  have sk: "idx_skip_of (3 / 10) 2 2 (map shape0 ?ims) (map shape1 ?ims) = [2]" by code_simp
  have e: "consensus_filter ?rsz ?s ?ims [0, 0, 0] = Inr ?r" by code_simp
  note td = empty_stack_fails [where rsz = ?rsz and s = ?s and ce = "[]" and cc = "[0, 0, 0]"
      and ims = ?deg]
  note t = empty_stack_fails [where rsz = ?rsz and s = ?s and ce = "[]" and cc = "[0, 0, 0]"
      and ims = ?ims]
  have a: "consensus_filter ?rsz ?s [] [] = Inl ValueError"
    using t by (rule conjunct1)
  have d: "\<exists>e. consensus_filter ?rsz ?s ?deg [0, 0, 0] = Inl e"
    using td ned csd by auto
  have rs: "\<forall>k<length ?ims.
      k \<notin> set (idx_skip_of (prc_image ?s) 2 2 (map shape0 ?ims) (map shape1 ?ims)) \<longrightarrow>
      (\<exists>im. ?rsz (collapse_raster (?ims ! k)) 2 2 = Inr im)"
  proof (intro allI impI)
    fix k assume "k < length ?ims"
      and "k \<notin> set (idx_skip_of (prc_image ?s) 2 2 (map shape0 ?ims) (map shape1 ?ims))"
    then have "k = 0 \<or> k = 1" using sk by auto
    then show "\<exists>im. ?rsz (collapse_raster (?ims ! k)) 2 2 = Inr im"
      by (auto simp: collapse_raster_def)
  qed
  have p: "\<exists>r. consensus_filter ?rsz ?s ?ims [0, 0, 0] = Inr r \<and>
      set (qa_idx_skip r) \<subseteq> set (qa_idx_remove r)"
    using t ne cs rs by auto
  show ?thesis using a d p ned csd ed ne cs sk e by simp
qed

lemma np_eq_iff: "np_eq v c \<longleftrightarrow> v = Fin c"
  by (cases v) auto

lemma count_true_card:
  "count_true b = card {(i, j). i < length b \<and> j < length (b ! i) \<and> b ! i ! j}"
proof -
  have "{(i, j). i < length b \<and> j < length (b ! i) \<and> b ! i ! j} =
        (SIGMA i:{..<length b}. {j. j < length (b ! i) \<and> b ! i ! j})"
    by auto
  moreover have "card (SIGMA i:{..<length b}. {j. j < length (b ! i) \<and> b ! i ! j}) =
        (\<Sum>i<length b. card {j. j < length (b ! i) \<and> b ! i ! j})"
    by (subst card_SigmaI) auto
  moreover have "count_true b = (\<Sum>i<length b. card {j. j < length (b ! i) \<and> b ! i ! j})"
    unfolding count_true_def
    by (simp add: sum_list_sum_nth length_filter_conv_card atLeast0LessThan)
  ultimately show ?thesis by simp
qed

lemma count_true_confident:
  assumes "length bin = h" "\<forall>i<h. length (bin ! i) = w"
  shows "count_true bin = card (confident_pixels bin h w)"
proof -
  have "{(i, j). i < length bin \<and> j < length (bin ! i) \<and> bin ! i ! j} = confident_pixels bin h w"
    using assms by (auto simp: confident_pixels_def)
  then show ?thesis by (simp add: count_true_card)
qed

lemma round_half_even_nearest:
  "\<exists>n. round_half_even x = real_of_int n \<and> nearest_even_int x n"
proof -
  define f where "f = \<lfloor>x\<rfloor>"
  define d where "d = x - real_of_int f"
  have d0: "0 \<le> d" and d1: "d < 1" unfolding d_def f_def by linarith+
  have x: "x = real_of_int f + d" unfolding d_def by simp
  have fl: "\<lfloor>x\<rfloor> = f" by (simp add: f_def)
  have dd: "x - real_of_int f = d" by (simp add: d_def)
  have rhe: "round_half_even x =
      (if d < 1 / 2 then real_of_int f
       else if d > 1 / 2 then real_of_int (f + 1)
       else if even f then real_of_int f else real_of_int (f + 1))"
    unfolding round_half_even_def Let_def fl dd by (rule refl)
  consider "d < 1 / 2" | "d > 1 / 2" | "d = 1 / 2" "even f" | "d = 1 / 2" "odd f"
    by fastforce
  then show ?thesis
  proof cases
    case 1
    then have "round_half_even x = real_of_int f"
      unfolding rhe by simp
    moreover have "nearest_even_int x f"
      using 1 d0 by (simp add: nearest_even_int_def x)
    ultimately show ?thesis by blast
  next
    case 2
    then have "round_half_even x = real_of_int (f + 1)"
      unfolding rhe by simp
    moreover have "nearest_even_int x (f + 1)"
      using 2 d1 by (simp add: nearest_even_int_def x)
    ultimately show ?thesis by blast
  next
    case 3
    then have "round_half_even x = real_of_int f"
      unfolding rhe by simp
    moreover have "nearest_even_int x f"
      using 3 by (simp add: nearest_even_int_def x)
    ultimately show ?thesis by blast
  next
    case 4
    then have "round_half_even x = real_of_int (f + 1)"
      unfolding rhe by simp
    moreover have "nearest_even_int x (f + 1)"
      using 4 by (simp add: nearest_even_int_def x)
    ultimately show ?thesis by blast
  qed
qed

lemma nearest_even_int_unique:
  assumes "nearest_even_int x n" "nearest_even_int x m"
  shows "n = m"
proof (rule ccontr)
  assume ne: "n \<noteq> m"
  have n: "\<bar>x - real_of_int n\<bar> \<le> 1 / 2" and m: "\<bar>x - real_of_int m\<bar> \<le> 1 / 2"
    using assms by (simp_all add: nearest_even_int_def)
  have "\<bar>real_of_int n - real_of_int m\<bar> \<le> 1" using n m by linarith
  then have "\<bar>n - m\<bar> \<le> 1" by linarith
  then have nm: "n = m + 1 \<or> m = n + 1" using ne by linarith
  have "real_of_int n = real_of_int m + 1 \<or> real_of_int m = real_of_int n + 1"
    using nm by auto
  then have "\<bar>x - real_of_int n\<bar> = 1 / 2 \<and> \<bar>x - real_of_int m\<bar> = 1 / 2"
    using n m by linarith
  then have "even n" "even m" using assms by (simp_all add: nearest_even_int_def)
  then show False using nm by auto
qed

lemma round_half_even_iff:
  "round_half_even x = real_of_int n \<longleftrightarrow> nearest_even_int x n"
proof
  assume a: "round_half_even x = real_of_int n"
  obtain m where m: "round_half_even x = real_of_int m" "nearest_even_int x m"
    using round_half_even_nearest by blast
  then have "n = m" using a by simp
  then show "nearest_even_int x n" using m(2) by simp
next
  assume a: "nearest_even_int x n"
  obtain m where m: "round_half_even x = real_of_int m" "nearest_even_int x m"
    using round_half_even_nearest by blast
  have "n = m" by (rule nearest_even_int_unique[OF a m(2)])
  then show "round_half_even x = real_of_int n" using m(1) by simp
qed

lemma diff_eq1_iff:
  "np_eq (np_abs_diff (np_round a) b) 1 \<longleftrightarrow>
     (\<exists>c v n. a = Fin c \<and> b = Fin v \<and> nearest_even_int c n \<and> \<bar>real_of_int n - v\<bar> = 1)"
proof (cases a)
  case NaN
  then show ?thesis by simp
next
  case (Fin c)
  note a = this
  show ?thesis
  proof (cases b)
    case NaN
    then show ?thesis using a by simp
  next
    case (Fin v)
    obtain m where m: "round_half_even c = real_of_int m" "nearest_even_int c m"
      using round_half_even_nearest by blast
    have "(\<exists>n. nearest_even_int c n \<and> \<bar>real_of_int n - v\<bar> = 1) \<longleftrightarrow> \<bar>real_of_int m - v\<bar> = 1"
      using m(2) nearest_even_int_unique by blast
    then show ?thesis using a Fin m(1) by simp
  qed
qed

lemma im_diff_eq1_nth:
  assumes "i < h" "j < w"
  shows "map (map (\<lambda>v. np_eq v 1)) (im_diff_of av bin im h w) ! i ! j \<longleftrightarrow>
     bin ! i ! j \<and>
     (\<exists>c v n. av ! i ! j = Fin c \<and> im ! i ! j = Fin v \<and> nearest_even_int c n \<and>
        \<bar>real_of_int n - v\<bar> = 1)"
proof (cases "bin ! i ! j")
  case True
  then show ?thesis using assms by (simp add: im_diff_of_def diff_eq1_iff)
next
  case False
  then show ?thesis using assms by (simp add: im_diff_of_def)
qed

lemma count_eq1_diverging:
  "count_eq1 (im_diff_of av bin im h w) = card (diverging_pixels av bin im h w)"
proof -
  let ?d = "map (map (\<lambda>v. np_eq v 1)) (im_diff_of av bin im h w)"
  have len: "length ?d = h" by (simp add: im_diff_of_def)
  have row: "length (?d ! i) = w" if "i < h" for i using that by (simp add: im_diff_of_def)
  have pt: "(i < length ?d \<and> j < length (?d ! i) \<and> ?d ! i ! j) \<longleftrightarrow>
      (i, j) \<in> diverging_pixels av bin im h w" for i j
  proof (cases "i < h \<and> j < w")
    case True
    then have "(i < length ?d \<and> j < length (?d ! i) \<and> ?d ! i ! j) \<longleftrightarrow> ?d ! i ! j"
      using len row by simp
    also have "\<dots> \<longleftrightarrow> bin ! i ! j \<and>
       (\<exists>c v n. av ! i ! j = Fin c \<and> im ! i ! j = Fin v \<and> nearest_even_int c n \<and>
          \<bar>real_of_int n - v\<bar> = 1)"
      using True by (intro im_diff_eq1_nth) simp_all
    also have "\<dots> \<longleftrightarrow> (i, j) \<in> diverging_pixels av bin im h w"
      using True by (simp add: diverging_pixels_def confident_pixels_def)
    finally show ?thesis .
  next
    case False
    have "\<not> (i < length ?d \<and> j < length (?d ! i))"
      using False len row by auto
    moreover have "(i, j) \<notin> diverging_pixels av bin im h w"
      using False by (auto simp: diverging_pixels_def confident_pixels_def)
    ultimately show ?thesis by blast
  qed
  have "{(i, j). i < length ?d \<and> j < length (?d ! i) \<and> ?d ! i ! j} = diverging_pixels av bin im h w"
    using pt by auto
  then show ?thesis unfolding count_eq1_def by (simp add: count_true_card)
qed

lemma finite_confident: "finite (confident_pixels bin h w)"
proof -
  have "confident_pixels bin h w \<subseteq> {..<h} \<times> {..<w}"
    by (auto simp: confident_pixels_def)
  then show ?thesis by (rule finite_subset) simp
qed

lemma diverging_subset: "diverging_pixels av bin im h w \<subseteq> confident_pixels bin h w"
  by (auto simp: diverging_pixels_def)

lemma prc_change_fraction:
  assumes "length bin = h" "\<forall>i<h. length (bin ! i) = w"
  shows "prc_change_of av bin im h w =
     true_divide (card (diverging_pixels av bin im h w)) (card (confident_pixels bin h w))"
  by (simp add: prc_change_of_def count_eq1_diverging count_true_confident[OF assms])

lemma quot_gt_fraction:
  assumes "n \<le> d"
  shows "quot_gt (true_divide n d) t \<longleftrightarrow> d \<noteq> 0 \<and> t < real n / real d"
  using assms by (auto simp: true_divide_def)

lemma consensus_filter_bin_shape:
  assumes "consensus_filter rsz s ims cc = Inr r"
  shows "0 < qa_height r \<and> 0 < qa_width r \<and> length (qa_im_bin r) = qa_height r \<and>
         (\<forall>i<qa_height r. length (qa_im_bin r ! i) = qa_width r)"
proof -
  note len = consensus_filter_av_shape(1) [OF assms]
  note rows = consensus_filter_av_shape(2) [OF assms]
  note bin = cf_bin [OF assms]
  from im_bin_shape[OF bin len rows] show ?thesis .
qed

text \<open>
  Claim C4. For an image \<open>k\<close> that is not skipped for its size, the divergence is the
  number of confident pixels where the value of the image differs by exactly 1 from the
  consensus rounded to the nearest integer, divided by the number of confident pixels.
  The image is rejected exactly when there is a confident pixel and the divergence is
  strictly greater than \<open>prc_image\<close>; an image whose divergence equals \<open>prc_image\<close> is
  kept.
\<close>

theorem divergence_rejection_strict:
  assumes "consensus_filter rsz s ims cc = Inr r" "k < length ims" "k \<notin> set (qa_idx_skip r)"
  shows "(k \<in> set (qa_idx_remove r) \<longleftrightarrow>
            card (confident_pixels (qa_im_bin r) (qa_height r) (qa_width r)) \<noteq> 0 \<and>
            prc_image s <
              real (card (diverging_pixels (qa_im_av r) (qa_im_bin r) (qa_ims r ! k)
                            (qa_height r) (qa_width r))) /
              real (card (confident_pixels (qa_im_bin r) (qa_height r) (qa_width r)))) \<and>
         (real (card (diverging_pixels (qa_im_av r) (qa_im_bin r) (qa_ims r ! k)
                        (qa_height r) (qa_width r))) /
          real (card (confident_pixels (qa_im_bin r) (qa_height r) (qa_width r))) = prc_image s \<longrightarrow>
            k \<notin> set (qa_idx_remove r)) \<and>
         confident_pixels (qa_im_bin r) (qa_height r) (qa_width r) =
           {(i, j). i < qa_height r \<and> j < qa_width r \<and> qa_im_bin r ! i ! j} \<and>
         diverging_pixels (qa_im_av r) (qa_im_bin r) (qa_ims r ! k) (qa_height r) (qa_width r) =
           {(i, j). i < qa_height r \<and> j < qa_width r \<and> qa_im_bin r ! i ! j \<and>
              (\<exists>c v n. qa_im_av r ! i ! j = Fin c \<and> qa_ims r ! k ! i ! j = Fin v \<and>
                 \<bar>c - real_of_int n\<bar> \<le> 1 / 2 \<and> (\<bar>c - real_of_int n\<bar> = 1 / 2 \<longrightarrow> even n) \<and>
                 \<bar>real_of_int n - v\<bar> = 1)}"
proof -
  let ?C = "confident_pixels (qa_im_bin r) (qa_height r) (qa_width r)"
  let ?D = "diverging_pixels (qa_im_av r) (qa_im_bin r) (qa_ims r ! k) (qa_height r) (qa_width r)"
  let ?q = "prc_change_of (qa_im_av r) (qa_im_bin r) (qa_ims r ! k) (qa_height r) (qa_width r)"
  have sh: "length (qa_im_bin r) = qa_height r"
    "\<forall>i<qa_height r. length (qa_im_bin r ! i) = qa_width r"
    using consensus_filter_bin_shape[OF assms(1)] by auto
  have q: "?q = true_divide (card ?D) (card ?C)"
    by (rule prc_change_fraction[OF sh])
  have le: "card ?D \<le> card ?C"
    by (rule card_mono[OF finite_confident diverging_subset])
  have "k \<in> set (qa_idx_remove r) \<longleftrightarrow> quot_gt ?q (prc_image s)"
    unfolding consensus_filter_remove[OF assms(1)] using assms(2,3) by simp
  then have a: "k \<in> set (qa_idx_remove r) \<longleftrightarrow>
      card ?C \<noteq> 0 \<and> prc_image s < real (card ?D) / real (card ?C)"
    unfolding q quot_gt_fraction[OF le] .
  have b: "real (card ?D) / real (card ?C) = prc_image s \<longrightarrow> k \<notin> set (qa_idx_remove r)"
    unfolding a by simp
  have c: "?C = {(i, j). i < qa_height r \<and> j < qa_width r \<and> qa_im_bin r ! i ! j}"
    by (simp add: confident_pixels_def)
  have d: "?D = {(i, j). i < qa_height r \<and> j < qa_width r \<and> qa_im_bin r ! i ! j \<and>
              (\<exists>c v n. qa_im_av r ! i ! j = Fin c \<and> qa_ims r ! k ! i ! j = Fin v \<and>
                 \<bar>c - real_of_int n\<bar> \<le> 1 / 2 \<and> (\<bar>c - real_of_int n\<bar> = 1 / 2 \<longrightarrow> even n) \<and>
                 \<bar>real_of_int n - v\<bar> = 1)}"
    by (simp add: diverging_pixels_def confident_pixels_def nearest_even_int_def)
  show ?thesis by (rule conjI[OF a conjI[OF b conjI[OF c d]]])
qed

theorem divergence_rejection_strict_witness:
  "consensus_filter (\<lambda>im h w. Inr im) \<lparr>prc_pixel = 4 / 10, prc_image = 1 / 2\<rparr>
     [[[Fin 0, Fin 0, Fin 0, Fin 0], [Fin 0, Fin 3, Fin 3, Fin 0], [Fin 0, Fin 0, Fin 0, Fin 0]],
      [[Fin 0, Fin 0, Fin 0, Fin 0], [Fin 0, Fin 3, Fin 3, Fin 0], [Fin 0, Fin 0, Fin 0, Fin 0]],
      [[Fin 0, Fin 0, Fin 0, Fin 0], [Fin 0, Fin 0, Fin 3, Fin 0], [Fin 0, Fin 0, Fin 0, Fin 0]],
      [[Fin 0, Fin 0, Fin 0, Fin 0], [Fin 0, Fin 0, Fin 0, Fin 0], [Fin 0, Fin 0, Fin 0, Fin 0]]]
     [0, 0, 0, 1 / 2] =
   Inr \<lparr>qa_height = 3, qa_width = 4, qa_idx_skip = [],
        qa_ims =
          [[[Fin 0, Fin 0, Fin 0, Fin 0], [Fin 0, Fin 1, Fin 1, Fin 0], [Fin 0, Fin 0, Fin 0, Fin 0]],
           [[Fin 0, Fin 0, Fin 0, Fin 0], [Fin 0, Fin 1, Fin 1, Fin 0], [Fin 0, Fin 0, Fin 0, Fin 0]],
           [[Fin 0, Fin 0, Fin 0, Fin 0], [Fin 0, Fin 0, Fin 1, Fin 0], [Fin 0, Fin 0, Fin 0, Fin 0]],
           [[Fin 0, Fin 0, Fin 0, Fin 0], [Fin 0, Fin 0, Fin 0, Fin 0], [Fin 0, Fin 0, Fin 0, Fin 0]]],
        qa_im_av = [[Fin 0, Fin 0, Fin 0, Fin 0], [Fin 0, Fin (2 / 3), Fin 1, Fin 0], [Fin 0, Fin 0, Fin 0, Fin 0]],
        qa_im_bin = [[False, False, False, False], [False, True, True, False], [False, False, False, False]],
        qa_idx_remove = [3]\<rparr> \<and>
   (2::nat) < 4 \<and> (3::nat) < 4 \<and>
   card (confident_pixels [[False, False, False, False], [False, True, True, False], [False, False, False, False]] 3 4) = 2 \<and>
   card (diverging_pixels [[Fin 0, Fin 0, Fin 0, Fin 0], [Fin 0, Fin (2 / 3), Fin 1, Fin 0], [Fin 0, Fin 0, Fin 0, Fin 0]]
           [[False, False, False, False], [False, True, True, False], [False, False, False, False]]
           [[Fin 0, Fin 0, Fin 0, Fin 0], [Fin 0, Fin 0, Fin 1, Fin 0], [Fin 0, Fin 0, Fin 0, Fin 0]] 3 4) = 1 \<and>
   card (diverging_pixels [[Fin 0, Fin 0, Fin 0, Fin 0], [Fin 0, Fin (2 / 3), Fin 1, Fin 0], [Fin 0, Fin 0, Fin 0, Fin 0]]
           [[False, False, False, False], [False, True, True, False], [False, False, False, False]]
           [[Fin 0, Fin 0, Fin 0, Fin 0], [Fin 0, Fin 0, Fin 0, Fin 0], [Fin 0, Fin 0, Fin 0, Fin 0]] 3 4) = 2 \<and>
   (2::nat) \<notin> set [3] \<and> (3::nat) \<in> set [3]"
proof -
  let ?s = "\<lparr>prc_pixel = 4 / 10, prc_image = 1 / 2\<rparr>"
  let ?ims = "[[[Fin 0, Fin 0, Fin 0, Fin 0], [Fin 0, Fin 3, Fin 3, Fin 0], [Fin 0, Fin 0, Fin 0, Fin 0]],
      [[Fin 0, Fin 0, Fin 0, Fin 0], [Fin 0, Fin 3, Fin 3, Fin 0], [Fin 0, Fin 0, Fin 0, Fin 0]],
      [[Fin 0, Fin 0, Fin 0, Fin 0], [Fin 0, Fin 0, Fin 3, Fin 0], [Fin 0, Fin 0, Fin 0, Fin 0]],
      [[Fin 0, Fin 0, Fin 0, Fin 0], [Fin 0, Fin 0, Fin 0, Fin 0], [Fin 0, Fin 0, Fin 0, Fin 0]]]"
  let ?av = "[[Fin 0, Fin 0, Fin 0, Fin 0], [Fin 0, Fin (2 / 3), Fin 1, Fin 0], [Fin 0, Fin 0, Fin 0, Fin 0]]"
  let ?bin = "[[False, False, False, False], [False, True, True, False], [False, False, False, False]]"
  let ?im2 = "[[Fin 0, Fin 0, Fin 0, Fin 0], [Fin 0, Fin 0, Fin 1, Fin 0], [Fin 0, Fin 0, Fin 0, Fin 0]]"
  let ?im3 = "[[Fin 0, Fin 0, Fin 0, Fin 0], [Fin 0, Fin 0, Fin 0, Fin 0], [Fin 0, Fin 0, Fin 0, Fin 0]]"
  let ?r = "\<lparr>qa_height = 3, qa_width = 4, qa_idx_skip = [],
        qa_ims =
          [[[Fin 0, Fin 0, Fin 0, Fin 0], [Fin 0, Fin 1, Fin 1, Fin 0], [Fin 0, Fin 0, Fin 0, Fin 0]],
           [[Fin 0, Fin 0, Fin 0, Fin 0], [Fin 0, Fin 1, Fin 1, Fin 0], [Fin 0, Fin 0, Fin 0, Fin 0]],
           [[Fin 0, Fin 0, Fin 0, Fin 0], [Fin 0, Fin 0, Fin 1, Fin 0], [Fin 0, Fin 0, Fin 0, Fin 0]],
           [[Fin 0, Fin 0, Fin 0, Fin 0], [Fin 0, Fin 0, Fin 0, Fin 0], [Fin 0, Fin 0, Fin 0, Fin 0]]],
        qa_im_av = [[Fin 0, Fin 0, Fin 0, Fin 0], [Fin 0, Fin (2 / 3), Fin 1, Fin 0], [Fin 0, Fin 0, Fin 0, Fin 0]],
        qa_im_bin = [[False, False, False, False], [False, True, True, False], [False, False, False, False]],
        qa_idx_remove = [3]\<rparr>"
  have e: "consensus_filter (\<lambda>im h w. Inr im) ?s ?ims [0, 0, 0, 1 / 2] = Inr ?r"
    by code_simp
  have sh: "length ?bin = 3" "\<forall>i<3. length (?bin ! i) = 4"
    by (simp_all add: numeral_3_eq_3 less_Suc_eq)
  have "count_true ?bin = 2" by code_simp
  then have c: "card (confident_pixels ?bin 3 4) = 2"
    using count_true_confident[OF sh] by simp
  have "count_eq1 (im_diff_of ?av ?bin ?im2 3 4) = 1" by code_simp
  then have d2: "card (diverging_pixels ?av ?bin ?im2 3 4) = 1"
    by (simp add: count_eq1_diverging)
  have "count_eq1 (im_diff_of ?av ?bin ?im3 3 4) = 2" by code_simp
  then have d3: "card (diverging_pixels ?av ?bin ?im3 3 4) = 2"
    by (simp add: count_eq1_diverging)
  have k2: "real (card (diverging_pixels ?av ?bin ?im2 3 4)) /
          real (card (confident_pixels ?bin 3 4)) = 1 / 2 \<longrightarrow> (2::nat) \<notin> set [3]"
    using divergence_rejection_strict [OF e, of 2, THEN conjunct2, THEN conjunct1] by simp
  have k3: "(3::nat) \<in> set [3] \<longleftrightarrow>
            card (confident_pixels ?bin 3 4) \<noteq> 0 \<and>
            1 / 2 < real (card (diverging_pixels ?av ?bin ?im3 3 4)) /
                    real (card (confident_pixels ?bin 3 4))"
    using divergence_rejection_strict [OF e, of 3, THEN conjunct1] by simp
  show ?thesis using e c d2 d3 k2 k3 by simp
qed

lemma idx_skip_filter_self:
  "filter (\<lambda>k. k \<in> set (idx_skip_of p h w (map f ims) ws)) [0..<length ims] =
     idx_skip_of p h w (map f ims) ws"
proof -
  have "filter (\<lambda>k. k \<in> set (filter P [0..<n])) [0..<n] = filter P [0..<n]" for P and n :: nat
    by (rule filter_cong) auto
  then show ?thesis unfolding idx_skip_of_def by simp
qed


text \<open>
  Claim C10. When the canonical size is found and is not degenerate, and the resize of
  every image that is not skipped returns, the stage returns a result; if its
  confidence mask has no true pixel, \<open>prc_change\<close> is \<open>nan\<close> (0/0) for every image,
  the comparison with \<open>prc_image\<close> is false, and the images removed are exactly the
  images skipped for their size.
\<close>

theorem empty_mask_accepts_all:
  assumes "canonical_size ims = Inr (h, w)" "0 < h" "0 < w"
    "\<forall>k<length ims.
       k \<notin> set (idx_skip_of (prc_image s) h w (map shape0 ims) (map shape1 ims)) \<longrightarrow>
       (\<exists>im. rsz (collapse_raster (ims ! k)) h w = Inr im)"
  shows "\<exists>r. consensus_filter rsz s ims cc = Inr r \<and>
     (count_true (qa_im_bin r) = 0 \<longrightarrow>
        qa_idx_remove r = qa_idx_skip r \<and>
        (\<forall>k<length ims.
           prc_change_of (qa_im_av r) (qa_im_bin r) (qa_ims r ! k)
             (qa_height r) (qa_width r) = QNaN \<and>
           (k \<in> set (qa_idx_remove r) \<longleftrightarrow> k \<in> set (qa_idx_skip r))))"
proof -
  let ?skip = "idx_skip_of (prc_image s) h w (map shape0 ims) (map shape1 ims)"
  from format_images_total[of ims ?skip rsz h w, OF assms(4)] obtain fims where
    f: "format_images rsz h w ?skip ims = Inr fims" by blast
  from consensus_filter_total[OF assms(1,2,3) f] obtain r where
    r: "consensus_filter rsz s ims cc = Inr r"
    by blast
  have sh: "length (qa_im_bin r) = qa_height r"
    "\<forall>i<qa_height r. length (qa_im_bin r ! i) = qa_width r"
    using consensus_filter_bin_shape[OF r] by auto
  have body: "qa_idx_remove r = qa_idx_skip r \<and>
        (\<forall>k<length ims.
           prc_change_of (qa_im_av r) (qa_im_bin r) (qa_ims r ! k)
             (qa_height r) (qa_width r) = QNaN \<and>
           (k \<in> set (qa_idx_remove r) \<longleftrightarrow> k \<in> set (qa_idx_skip r)))"
    if z: "count_true (qa_im_bin r) = 0"
  proof -
    have c0: "card (confident_pixels (qa_im_bin r) (qa_height r) (qa_width r)) = 0"
      using z count_true_confident[OF sh] by simp
    have e: "confident_pixels (qa_im_bin r) (qa_height r) (qa_width r) = {}"
      using c0 finite_confident[of "qa_im_bin r" "qa_height r" "qa_width r"] by simp
    have q: "prc_change_of (qa_im_av r) (qa_im_bin r) im (qa_height r) (qa_width r) = QNaN" for im
    proof -
      have "diverging_pixels (qa_im_av r) (qa_im_bin r) im (qa_height r) (qa_width r) = {}"
        using diverging_subset[of "qa_im_av r" "qa_im_bin r" im "qa_height r" "qa_width r"] e
        by blast
      then show ?thesis
        unfolding prc_change_fraction[OF sh] by (simp add: c0 true_divide_def)
    qed
    have skip: "qa_idx_skip r =
        idx_skip_of (prc_image s) (qa_height r) (qa_width r) (map shape0 ims) (map shape1 ims)"
      by (rule cf_skip [OF r])
    have rem: "qa_idx_remove r = filter (\<lambda>k. k \<in> set (qa_idx_skip r)) [0..<length ims]"
      unfolding consensus_filter_remove[OF r] by (simp add: q)
    also have "\<dots> = qa_idx_skip r"
      by (subst (1 2) skip) (rule idx_skip_filter_self)
    finally have "qa_idx_remove r = qa_idx_skip r" .
    then show ?thesis using q by simp
  qed
  have "consensus_filter rsz s ims cc = Inr r \<and>
     (count_true (qa_im_bin r) = 0 \<longrightarrow>
        qa_idx_remove r = qa_idx_skip r \<and>
        (\<forall>k<length ims.
           prc_change_of (qa_im_av r) (qa_im_bin r) (qa_ims r ! k)
             (qa_height r) (qa_width r) = QNaN \<and>
           (k \<in> set (qa_idx_remove r) \<longleftrightarrow> k \<in> set (qa_idx_skip r))))"
    by (rule conjI [OF r]) (rule impI, rule body)
  then show ?thesis by (rule exI)
qed

theorem empty_mask_accepts_all_witness:
  "canonical_size [[[Fin 0, Fin 3], [Fin 0, Fin 3]], [[Fin 3, Fin 0], [Fin 3, Fin 0]], [[Fin 3]]] =
     Inr (2, 2) \<and> (0::nat) < 2 \<and>
   idx_skip_of (3 / 10) 2 2
     (map shape0 [[[Fin 0, Fin 3], [Fin 0, Fin 3]], [[Fin 3, Fin 0], [Fin 3, Fin 0]], [[Fin 3]]])
     (map shape1 [[[Fin 0, Fin 3], [Fin 0, Fin 3]], [[Fin 3, Fin 0], [Fin 3, Fin 0]], [[Fin 3]]]) = [2] \<and>
   consensus_filter (\<lambda>im h w. if shape0 im = 0 \<or> h = 0 \<or> w = 0 then Inl ValueError else Inr im)
     \<lparr>prc_pixel = 15 / 100, prc_image = 3 / 10\<rparr>
     [[[Fin 0, Fin 3], [Fin 0, Fin 3]], [[Fin 3, Fin 0], [Fin 3, Fin 0]], [[Fin 3]]] [0, 0, 0] =
     Inr \<lparr>qa_height = 2, qa_width = 2, qa_idx_skip = [2],
          qa_ims = [[[Fin 0, Fin 1], [Fin 0, Fin 1]], [[Fin 1, Fin 0], [Fin 1, Fin 0]], [[Fin 3]]],
          qa_im_av = [[Fin (1 / 2), Fin (1 / 2)], [Fin (1 / 2), Fin (1 / 2)]],
          qa_im_bin = [[False, False], [False, False]], qa_idx_remove = [2]\<rparr> \<and>
   count_true [[False, False], [False, False]] = 0 \<and>
   prc_change_of [[Fin (1 / 2), Fin (1 / 2)], [Fin (1 / 2), Fin (1 / 2)]]
     [[False, False], [False, False]] [[Fin 0, Fin 1], [Fin 0, Fin 1]] 2 2 = QNaN"
proof -
  let ?ims = "[[[Fin 0, Fin 3], [Fin 0, Fin 3]], [[Fin 3, Fin 0], [Fin 3, Fin 0]], [[Fin 3]]] :: raster list"
  let ?s = "\<lparr>prc_pixel = 15 / 100, prc_image = 3 / 10\<rparr>"
  let ?rsz = "\<lambda>(im :: raster) (h :: nat) (w :: nat).
     if shape0 im = 0 \<or> h = 0 \<or> w = 0 then Inl ValueError else Inr im"
  let ?r = "\<lparr>qa_height = 2, qa_width = 2, qa_idx_skip = [2],
          qa_ims = [[[Fin 0, Fin 1], [Fin 0, Fin 1]], [[Fin 1, Fin 0], [Fin 1, Fin 0]], [[Fin 3]]],
          qa_im_av = [[Fin (1 / 2), Fin (1 / 2)], [Fin (1 / 2), Fin (1 / 2)]],
          qa_im_bin = [[False, False], [False, False]], qa_idx_remove = [2]\<rparr>"
  have cs: "canonical_size ?ims = Inr (2, 2)" by code_simp
  have sk: "idx_skip_of (prc_image ?s) 2 2 (map shape0 ?ims) (map shape1 ?ims) = [2]"
    by code_simp
  have rs: "\<forall>k<length ?ims.
       k \<notin> set (idx_skip_of (prc_image ?s) 2 2 (map shape0 ?ims) (map shape1 ?ims)) \<longrightarrow>
       (\<exists>im. ?rsz (collapse_raster (?ims ! k)) 2 2 = Inr im)"
    unfolding sk by (simp add: less_Suc_eq numeral_3_eq_3 collapse_raster_def shape0_def)
  have e: "consensus_filter ?rsz ?s ?ims [0, 0, 0] = Inr ?r"
    by code_simp
  have c: "count_true [[False, False], [False, False]] = 0" by (simp add: count_true_def)
  have "\<exists>r. consensus_filter ?rsz ?s ?ims [0, 0, 0] = Inr r \<and>
     (count_true (qa_im_bin r) = 0 \<longrightarrow>
        qa_idx_remove r = qa_idx_skip r \<and>
        (\<forall>k<length ?ims.
           prc_change_of (qa_im_av r) (qa_im_bin r) (qa_ims r ! k)
             (qa_height r) (qa_width r) = QNaN \<and>
           (k \<in> set (qa_idx_remove r) \<longleftrightarrow> k \<in> set (qa_idx_skip r))))"
    using empty_mask_accepts_all [of ?ims 2 2 ?s ?rsz "[0, 0, 0]", OF cs _ _ rs] by simp
  then have "prc_change_of (qa_im_av ?r) (qa_im_bin ?r) (qa_ims ?r ! 0)
             (qa_height ?r) (qa_width ?r) = QNaN"
    unfolding e using c by (auto dest: spec[of _ 0])
  then show ?thesis using cs sk e c by simp
qed

text \<open>
  Claim C8, as the code has it. The canonical height is the most frequent height of the
  stack and the canonical width the most frequent width, each found on its own, a tie
  going to the smallest value; the stage uses this one size throughout. The pair of
  the two need not be the most frequent (height, width) pair: see the counterexample,
  where it is the size of no image.
\<close>

theorem canonical_size_mode:
  assumes "ims \<noteq> []"
  shows "\<exists>h w. canonical_size ims = Inr (h, w) \<and>
     h \<in> set (map shape0 ims) \<and>
     (\<forall>x\<in>set (map shape0 ims).
        count_list (map shape0 ims) x \<le> count_list (map shape0 ims) h \<and>
        (count_list (map shape0 ims) x = count_list (map shape0 ims) h \<longrightarrow> h \<le> x)) \<and>
     w \<in> set (map shape1 ims) \<and>
     (\<forall>x\<in>set (map shape1 ims).
        count_list (map shape1 ims) x \<le> count_list (map shape1 ims) w \<and>
        (count_list (map shape1 ims) x = count_list (map shape1 ims) w \<longrightarrow> w \<le> x)) \<and>
     (\<forall>rsz s cc r. consensus_filter rsz s ims cc = Inr r \<longrightarrow>
        qa_height r = h \<and> qa_width r = w)"
proof -
  have ne: "map shape0 ims \<noteq> []" "map shape1 ims \<noteq> []" using assms by simp_all
  from canonical_dim_mode[OF ne(1)] obtain h where
    h: "canonical_dim (map shape0 ims) = Inr h" "h \<in> set (map shape0 ims)"
      "\<forall>x\<in>set (map shape0 ims).
        count_list (map shape0 ims) x \<le> count_list (map shape0 ims) h \<and>
        (count_list (map shape0 ims) x = count_list (map shape0 ims) h \<longrightarrow> h \<le> x)"
    by blast
  from canonical_dim_mode[OF ne(2)] obtain w where
    w: "canonical_dim (map shape1 ims) = Inr w" "w \<in> set (map shape1 ims)"
      "\<forall>x\<in>set (map shape1 ims).
        count_list (map shape1 ims) x \<le> count_list (map shape1 ims) w \<and>
        (count_list (map shape1 ims) x = count_list (map shape1 ims) w \<longrightarrow> w \<le> x)"
    by blast
  have cs: "canonical_size ims = Inr (h, w)"
    using h(1) w(1) by (simp add: canonical_size_def)
  have st: "qa_height r = h \<and> qa_width r = w"
    if "consensus_filter rsz s ims cc = Inr r" for rsz s cc r
    using cf_size[OF that] cs by simp
  show ?thesis
    using cs h(2,3) w(2,3) st by blast
qed

theorem canonical_size_pair_counterexample:
  "canonical_size [[[NaN, NaN]], [[NaN, NaN, NaN]], [[NaN], [NaN]], [[NaN], [NaN]]] = Inr (1, 1) \<and>
   count_list (map (\<lambda>im. (shape0 im, shape1 im))
      [[[NaN, NaN]], [[NaN, NaN, NaN]], [[NaN], [NaN]], [[NaN], [NaN]]]) (1, 1) = 0 \<and>
   count_list (map (\<lambda>im. (shape0 im, shape1 im))
      [[[NaN, NaN]], [[NaN, NaN, NaN]], [[NaN], [NaN]], [[NaN], [NaN]]]) (2, 1) = 2"
  by code_simp

theorem canonical_size_mode_witness:
  "[[[NaN, NaN]], [[NaN, NaN, NaN]], [[NaN], [NaN]], [[NaN], [NaN]]] \<noteq> ([] :: raster list) \<and>
   canonical_size [[[NaN, NaN]], [[NaN, NaN, NaN]], [[NaN], [NaN]], [[NaN], [NaN]]] = Inr (1, 1) \<and>
   count_list (map shape0 [[[NaN, NaN]], [[NaN, NaN, NaN]], [[NaN], [NaN]], [[NaN], [NaN]]]) 1 = 2 \<and>
   count_list (map shape0 [[[NaN, NaN]], [[NaN, NaN, NaN]], [[NaN], [NaN]], [[NaN], [NaN]]]) 2 = 2 \<and>
   count_list (map shape1 [[[NaN, NaN]], [[NaN, NaN, NaN]], [[NaN], [NaN]], [[NaN], [NaN]]]) 1 = 2"
proof -
  have ne: "[[[NaN, NaN]], [[NaN, NaN, NaN]], [[NaN], [NaN]], [[NaN], [NaN]]] \<noteq> ([] :: raster list)"
    by simp
  have e: "canonical_size [[[NaN, NaN]], [[NaN, NaN, NaN]], [[NaN], [NaN]], [[NaN], [NaN]]] = Inr (1, 1) \<and>
   count_list (map shape0 [[[NaN, NaN]], [[NaN, NaN, NaN]], [[NaN], [NaN]], [[NaN], [NaN]]]) 1 = 2 \<and>
   count_list (map shape0 [[[NaN, NaN]], [[NaN, NaN, NaN]], [[NaN], [NaN]], [[NaN], [NaN]]]) 2 = 2 \<and>
   count_list (map shape1 [[[NaN, NaN]], [[NaN, NaN, NaN]], [[NaN], [NaN]], [[NaN], [NaN]]]) 1 = 2"
    by code_simp
  from canonical_size_mode [OF ne] e ne show ?thesis by blast
qed

section \<open>Properties of the pruning and of the comparison to the surveys\<close>

lemma py_take_total:
  "\<forall>i\<in>set idx. i < length xs \<Longrightarrow> py_take xs idx = Inr (map (\<lambda>i. xs ! i) idx)"
  by (induction idx) auto

lemma py_take_InrD:
  "py_take xs idx = Inr ys \<Longrightarrow> (\<forall>i\<in>set idx. i < length xs) \<and> ys = map (\<lambda>i. xs ! i) idx"
  by (induction idx arbitrary: ys) (auto split: sum.splits if_splits)

lemma py_take_Inr_iff:
  "py_take xs idx = Inr ys \<longleftrightarrow> (\<forall>i\<in>set idx. i < length xs) \<and> ys = map (\<lambda>i. xs ! i) idx"
  using py_take_total py_take_InrD by blast

lemma py_take_taken_at: "py_take xs idx = Inr ys \<Longrightarrow> taken_at idx xs ys"
  by (auto simp: py_take_Inr_iff taken_at_def)

lemma prune_keys_Inr:
  "prune_keys idx out = Inr out' \<Longrightarrow>
     map fst out' = map fst out \<and>
     (\<forall>n<length out. taken_at idx (snd (out ! n)) (snd (out' ! n)))"
proof (induction out arbitrary: out')
  case Nil
  then show ?case by simp
next
  case (Cons kv out)
  obtain key xs where kv: "kv = (key, xs)" by (cases kv)
  from Cons.prems kv obtain ys out2 where
    ys: "py_take xs idx = Inr ys" and o2: "prune_keys idx out = Inr out2"
    and out': "out' = (key, ys) # out2"
    by (auto split: sum.splits)
  from Cons.IH[OF o2] have ih: "map fst out2 = map fst out"
    "\<forall>n<length out. taken_at idx (snd (out ! n)) (snd (out2 ! n))" by auto
  have "taken_at idx (snd ((kv # out) ! n)) (snd (out' ! n))" if "n < length (kv # out)" for n
    using that ih(2) py_take_taken_at[OF ys] kv out' by (cases n) auto
  then show ?case using ih(1) kv out' by simp
qed

lemma idx_keep_props:
  "sorted (idx_keep_of n rm)" "distinct (idx_keep_of n rm)"
  "set (idx_keep_of n rm) = {i. i < n \<and> i \<notin> set rm}"
  by (auto simp: idx_keep_of_def intro: sorted_wrt_filter)

lemma nonan_idx_props:
  "sorted (nonan_idx vs)" "distinct (nonan_idx vs)"
  "set (nonan_idx vs) = {k. k < length vs \<and> \<not> isnan (vs ! k)}"
  by (auto simp: nonan_idx_def intro: sorted_wrt_filter)

lemma nonan_idx_Cons:
  "nonan_idx (v # vs) = (if isnan v then [] else [0]) @ map Suc (nonan_idx vs)"
proof -
  have "[0..<length (v # vs)] = 0 # map Suc [0..<length vs]"
    by (simp add: upt_conv_Cons map_Suc_upt del: upt_Suc)
  then show ?thesis
    by (simp add: nonan_idx_def filter_map comp_def del: upt_Suc)
qed

lemma fin_values_nonan_idx:
  "map Fin (fin_values vs) = map (\<lambda>k. vs ! k) (nonan_idx vs)"
proof (induction vs)
  case Nil
  then show ?case by (simp add: nonan_idx_def)
next
  case (Cons v vs)
  then show ?case by (cases v) (simp_all add: nonan_idx_Cons comp_def)
qed

lemma fin_values_taken_at: "taken_at (nonan_idx vs) vs (map Fin (fin_values vs))"
  unfolding fin_values_nonan_idx taken_at_def using nonan_idx_props(3)[of vs]
  by (auto simp: set_conv_nth)

lemma map_of_filter_other:
  "k \<noteq> key \<Longrightarrow> map_of (filter (\<lambda>kv. fst kv \<noteq> key) out) k = map_of out k"
  by (induction out) auto

lemma map_of_filter_self: "map_of (filter (\<lambda>kv. fst kv \<noteq> key) out) key = None"
  by (induction out) auto

lemma match_loop_length: "match_loop st gt ds = Inr ci \<Longrightarrow> length ci = length ds"
  by (induction ds arbitrary: ci) (auto split: sum.splits step.splits)

lemma length_fin_values: "length (fin_values vs) = length (nonan_idx vs)"
  using arg_cong[OF fin_values_nonan_idx[of vs], of length] by simp

lemma cleanup_output_Inr:
  assumes "cleanup_output out idx_remove = Inr out'"
  shows "\<exists>ds. map_of out ''dates'' = Some ds \<and>
     map fst out' = filter (\<lambda>k. k \<noteq> ''im_classif'') (map fst out) \<and>
     map_of out' ''im_classif'' = None \<and>
     (\<forall>n<length out'. \<exists>xs. (fst (out' ! n), xs) \<in> set out \<and>
        taken_at (idx_keep_of (length ds) idx_remove) xs (snd (out' ! n)))"
proof -
  define out1 where "out1 = filter (\<lambda>kv. fst kv \<noteq> ''im_classif'') out"
  have p: "pop_key ''im_classif'' out = Inr out1"
  proof (cases "map_of out ''im_classif''")
    case None
    then have "cleanup_output out idx_remove = Inl KeyError"
      by (simp add: cleanup_output_def pop_key_def)
    with assms show ?thesis by simp
  next
    case (Some a)
    then show ?thesis by (simp add: pop_key_def out1_def)
  qed
  have c1: "cleanup_output out idx_remove =
      (case map_of out1 ''dates'' of
         None \<Rightarrow> Inl KeyError
       | Some ds \<Rightarrow> prune_keys (idx_keep_of (length ds) idx_remove) out1)"
    by (simp add: cleanup_output_def p)
  obtain ds where ds1: "map_of out1 ''dates'' = Some ds"
    using assms unfolding c1 by (cases "map_of out1 ''dates''") simp_all
  have pr: "prune_keys (idx_keep_of (length ds) idx_remove) out1 = Inr out'"
    using assms unfolding c1 ds1 by simp
  have "map_of out1 ''dates'' = map_of out ''dates''"
    unfolding out1_def by (rule map_of_filter_other) simp
  then have ds: "map_of out ''dates'' = Some ds"
    using ds1 by simp
  note P1 = prune_keys_Inr[OF pr, THEN conjunct1]
  note P2 = prune_keys_Inr[OF pr, THEN conjunct2]
  have fst: "map fst out' = filter (\<lambda>k. k \<noteq> ''im_classif'') (map fst out)"
    unfolding P1 out1_def by (simp add: filter_map comp_def)
  have "length (map fst out') = length (map fst out1)" unfolding P1 by (rule refl)
  then have len: "length out' = length out1" by simp
  have none: "map_of out' ''im_classif'' = None"
  proof -
    have "''im_classif'' \<notin> set (map fst out')" unfolding fst by simp
    then show ?thesis by (simp add: map_of_eq_None_iff)
  qed
  have "\<exists>xs. (fst (out' ! n), xs) \<in> set out \<and>
        taken_at (idx_keep_of (length ds) idx_remove) xs (snd (out' ! n))" if n: "n < length out'" for n
  proof -
    have n1: "n < length out1" using n len by simp
    have "map fst out' ! n = map fst out1 ! n" unfolding P1 by (rule refl)
    then have f: "fst (out' ! n) = fst (out1 ! n)" using n n1 by simp
    have "out1 ! n \<in> set out1" by (rule nth_mem[OF n1])
    then have m: "out1 ! n \<in> set out" unfolding out1_def by simp
    have t: "taken_at (idx_keep_of (length ds) idx_remove) (snd (out1 ! n)) (snd (out' ! n))"
      using P2 n1 by (elim allE impE)
    have e: "(fst (out' ! n), snd (out1 ! n)) \<in> set out"
      using m unfolding f by simp
    show ?thesis by (rule exI[of _ "snd (out1 ! n)"]) (rule conjI[OF e t])
  qed
  then have all: "\<forall>n<length out'. \<exists>xs. (fst (out' ! n), xs) \<in> set out \<and>
        taken_at (idx_keep_of (length ds) idx_remove) xs (snd (out' ! n))"
    by simp
  show ?thesis
    by (rule exI[of _ ds]) (rule conjI[OF ds conjI[OF fst conjI[OF none all]]])
qed

lemma remove_nans_Inr:
  assumes "remove_nans dates satname chainage = Inr nn"
  shows "taken_at (nonan_idx chainage) dates (dates_nonans nn) \<and>
         taken_at (nonan_idx chainage) satname (satnames_nonans nn) \<and>
         taken_at (nonan_idx chainage) chainage (map Fin (chain_nonans nn))"
proof -
  from assms obtain ds ns where ds: "py_take dates (nonan_idx chainage) = Inr ds"
    and ns: "py_take satname (nonan_idx chainage) = Inr ns"
    and nn: "nn = \<lparr>dates_nonans = ds, satnames_nonans = ns, chain_nonans = fin_values chainage\<rparr>"
    by (auto simp: remove_nans_def split: sum.splits)
  show ?thesis
    using py_take_taken_at[OF ds] py_take_taken_at[OF ns] fin_values_taken_at[of chainage]
    by (simp add: nn)
qed

lemma align_transect_Inr:
  assumes "align_transect st dates satname chainage gt = Inr a"
  shows "\<exists>nn chain_int. remove_nans dates satname chainage = Inr nn \<and>
     match_loop st gt (dates_nonans nn) = Inr chain_int \<and>
     taken_at (nonan_idx chain_int) (chain_nonans nn) (chain_sat a) \<and>
     taken_at (nonan_idx chain_int) chain_int (map Fin (chain_sur a)) \<and>
     taken_at (nonan_idx chain_int) (dates_nonans nn) (dates_sat a) \<and>
     taken_at (nonan_idx chain_int) (satnames_nonans nn) (satnames a)"
proof -
  from assms obtain nn where nn: "remove_nans dates satname chainage = Inr nn"
    by (auto simp: align_transect_def split: sum.splits)
  from assms nn obtain ci where ci: "match_loop st gt (dates_nonans nn) = Inr ci"
    by (auto simp: align_transect_def split: sum.splits)
  from assms nn ci obtain ds ns where ds: "py_take (dates_nonans nn) (nonan_idx ci) = Inr ds"
    and ns: "py_take (satnames_nonans nn) (nonan_idx ci) = Inr ns"
    and a: "a = \<lparr>chain_sat = map (\<lambda>k. chain_nonans nn ! k) (nonan_idx ci),
              chain_sur = fin_values ci, dates_sat = ds, satnames = ns\<rparr>"
    by (auto simp: align_transect_def split: sum.splits)
  note R = remove_nans_Inr[OF nn]
  have l1: "length (chain_nonans nn) = length (dates_nonans nn)"
    using R by (simp add: taken_at_def)
  have l2: "length ci = length (dates_nonans nn)" by (rule match_loop_length[OF ci])
  have "nonan_idx ci ! j < length (chain_nonans nn)" if "j < length (nonan_idx ci)" for j
  proof -
    have "nonan_idx ci ! j \<in> set (nonan_idx ci)" using that by (rule nth_mem)
    then have "nonan_idx ci ! j < length ci" unfolding nonan_idx_props(3) by simp
    then show ?thesis using l1 l2 by simp
  qed
  then have "taken_at (nonan_idx ci) (chain_nonans nn) (chain_sat a)"
    by (simp add: a taken_at_def)
  moreover have "taken_at (nonan_idx ci) ci (map Fin (chain_sur a))"
    using fin_values_taken_at[of ci] by (simp add: a)
  moreover have "taken_at (nonan_idx ci) (dates_nonans nn) (dates_sat a)"
    using py_take_taken_at[OF ds] by (simp add: a)
  moreover have "taken_at (nonan_idx ci) (satnames_nonans nn) (satnames a)"
    using py_take_taken_at[OF ns] by (simp add: a)
  ultimately have "remove_nans dates satname chainage = Inr nn \<and>
     match_loop st gt (dates_nonans nn) = Inr ci \<and>
     taken_at (nonan_idx ci) (chain_nonans nn) (chain_sat a) \<and>
     taken_at (nonan_idx ci) ci (map Fin (chain_sur a)) \<and>
     taken_at (nonan_idx ci) (dates_nonans nn) (dates_sat a) \<and>
     taken_at (nonan_idx ci) (satnames_nonans nn) (satnames a)"
    using nn ci by simp
  then show ?thesis by blast
qed

text \<open>
  Claim C5, as the code has it. The prune of lines 215 to 219 first removes the key
  \<open>im_classif\<close> from the output, then reads every remaining list at the one index list
  \<open>idx_keep\<close>, the indices of the dates that are in \<open>idx_remove\<close> for neither reason, in
  ascending order: every list that is left has the length of \<open>idx_keep\<close> and holds at
  position \<open>j\<close> the original entry \<open>idx_keep ! j\<close>. The two NaN removals (lines 359 to
  363 and 405 to 409) read the dates, the satellite names and the chainages at the one
  index list of the entries that are not \<open>NaN\<close>. The classified rasters are not
  pruned: the pruned output has no such key (see the counterexample).
\<close>

theorem filters_keep_alignment:
  "(cleanup_output out idx_remove = Inr out' \<longrightarrow>
      (\<exists>ds. map_of out ''dates'' = Some ds \<and>
         map fst out' = filter (\<lambda>k. k \<noteq> ''im_classif'') (map fst out) \<and>
         map_of out' ''im_classif'' = None \<and>
         (\<forall>n<length out'. \<exists>xs. (fst (out' ! n), xs) \<in> set out \<and>
            taken_at (idx_keep_of (length ds) idx_remove) xs (snd (out' ! n))) \<and>
         sorted (idx_keep_of (length ds) idx_remove) \<and>
         distinct (idx_keep_of (length ds) idx_remove) \<and>
         set (idx_keep_of (length ds) idx_remove) = {i. i < length ds \<and> i \<notin> set idx_remove})) \<and>
   (remove_nans dates satname chainage = Inr nn \<longrightarrow>
      taken_at (nonan_idx chainage) dates (dates_nonans nn) \<and>
      taken_at (nonan_idx chainage) satname (satnames_nonans nn) \<and>
      taken_at (nonan_idx chainage) chainage (map Fin (chain_nonans nn)) \<and>
      sorted (nonan_idx chainage) \<and> distinct (nonan_idx chainage) \<and>
      set (nonan_idx chainage) = {k. k < length chainage \<and> \<not> isnan (chainage ! k)}) \<and>
   (align_transect st dates satname chainage gt = Inr a \<longrightarrow>
      (\<exists>nn chain_int. remove_nans dates satname chainage = Inr nn \<and>
         match_loop st gt (dates_nonans nn) = Inr chain_int \<and>
         taken_at (nonan_idx chain_int) (chain_nonans nn) (chain_sat a) \<and>
         taken_at (nonan_idx chain_int) chain_int (map Fin (chain_sur a)) \<and>
         taken_at (nonan_idx chain_int) (dates_nonans nn) (dates_sat a) \<and>
         taken_at (nonan_idx chain_int) (satnames_nonans nn) (satnames a)))"
proof -
  have A: "cleanup_output out idx_remove = Inr out' \<longrightarrow>
      (\<exists>ds. map_of out ''dates'' = Some ds \<and>
         map fst out' = filter (\<lambda>k. k \<noteq> ''im_classif'') (map fst out) \<and>
         map_of out' ''im_classif'' = None \<and>
         (\<forall>n<length out'. \<exists>xs. (fst (out' ! n), xs) \<in> set out \<and>
            taken_at (idx_keep_of (length ds) idx_remove) xs (snd (out' ! n))) \<and>
         sorted (idx_keep_of (length ds) idx_remove) \<and>
         distinct (idx_keep_of (length ds) idx_remove) \<and>
         set (idx_keep_of (length ds) idx_remove) = {i. i < length ds \<and> i \<notin> set idx_remove})"
  proof (rule impI)
    assume c: "cleanup_output out idx_remove = Inr out'"
    from cleanup_output_Inr[OF c] obtain ds where d:
      "map_of out ''dates'' = Some ds \<and>
       map fst out' = filter (\<lambda>k. k \<noteq> ''im_classif'') (map fst out) \<and>
       map_of out' ''im_classif'' = None \<and>
       (\<forall>n<length out'. \<exists>xs. (fst (out' ! n), xs) \<in> set out \<and>
          taken_at (idx_keep_of (length ds) idx_remove) xs (snd (out' ! n)))" by (elim exE)
    have body: "map_of out ''dates'' = Some ds \<and>
         map fst out' = filter (\<lambda>k. k \<noteq> ''im_classif'') (map fst out) \<and>
         map_of out' ''im_classif'' = None \<and>
         (\<forall>n<length out'. \<exists>xs. (fst (out' ! n), xs) \<in> set out \<and>
            taken_at (idx_keep_of (length ds) idx_remove) xs (snd (out' ! n))) \<and>
         sorted (idx_keep_of (length ds) idx_remove) \<and>
         distinct (idx_keep_of (length ds) idx_remove) \<and>
         set (idx_keep_of (length ds) idx_remove) = {i. i < length ds \<and> i \<notin> set idx_remove}"
      by (rule conjI[OF d[THEN conjunct1] conjI[OF d[THEN conjunct2, THEN conjunct1]
            conjI[OF d[THEN conjunct2, THEN conjunct2, THEN conjunct1]
            conjI[OF d[THEN conjunct2, THEN conjunct2, THEN conjunct2]
            conjI[OF idx_keep_props(1) conjI[OF idx_keep_props(2) idx_keep_props(3)]]]]]])
    show "\<exists>ds. map_of out ''dates'' = Some ds \<and>
         map fst out' = filter (\<lambda>k. k \<noteq> ''im_classif'') (map fst out) \<and>
         map_of out' ''im_classif'' = None \<and>
         (\<forall>n<length out'. \<exists>xs. (fst (out' ! n), xs) \<in> set out \<and>
            taken_at (idx_keep_of (length ds) idx_remove) xs (snd (out' ! n))) \<and>
         sorted (idx_keep_of (length ds) idx_remove) \<and>
         distinct (idx_keep_of (length ds) idx_remove) \<and>
         set (idx_keep_of (length ds) idx_remove) = {i. i < length ds \<and> i \<notin> set idx_remove}"
      by (rule exI[of _ ds]) (rule body)
  qed
  have B: "remove_nans dates satname chainage = Inr nn \<longrightarrow>
      taken_at (nonan_idx chainage) dates (dates_nonans nn) \<and>
      taken_at (nonan_idx chainage) satname (satnames_nonans nn) \<and>
      taken_at (nonan_idx chainage) chainage (map Fin (chain_nonans nn)) \<and>
      sorted (nonan_idx chainage) \<and> distinct (nonan_idx chainage) \<and>
      set (nonan_idx chainage) = {k. k < length chainage \<and> \<not> isnan (chainage ! k)}"
  proof (rule impI)
    assume r: "remove_nans dates satname chainage = Inr nn"
    note R = remove_nans_Inr[OF r]
    show "taken_at (nonan_idx chainage) dates (dates_nonans nn) \<and>
      taken_at (nonan_idx chainage) satname (satnames_nonans nn) \<and>
      taken_at (nonan_idx chainage) chainage (map Fin (chain_nonans nn)) \<and>
      sorted (nonan_idx chainage) \<and> distinct (nonan_idx chainage) \<and>
      set (nonan_idx chainage) = {k. k < length chainage \<and> \<not> isnan (chainage ! k)}"
      by (rule conjI[OF R[THEN conjunct1] conjI[OF R[THEN conjunct2, THEN conjunct1]
            conjI[OF R[THEN conjunct2, THEN conjunct2]
            conjI[OF nonan_idx_props(1) conjI[OF nonan_idx_props(2) nonan_idx_props(3)]]]]])
  qed
  have C: "align_transect st dates satname chainage gt = Inr a \<longrightarrow>
      (\<exists>nn chain_int. remove_nans dates satname chainage = Inr nn \<and>
         match_loop st gt (dates_nonans nn) = Inr chain_int \<and>
         taken_at (nonan_idx chain_int) (chain_nonans nn) (chain_sat a) \<and>
         taken_at (nonan_idx chain_int) chain_int (map Fin (chain_sur a)) \<and>
         taken_at (nonan_idx chain_int) (dates_nonans nn) (dates_sat a) \<and>
         taken_at (nonan_idx chain_int) (satnames_nonans nn) (satnames a))"
    by (rule impI) (rule align_transect_Inr)
  show ?thesis by (rule conjI [OF A conjI [OF B C]])
qed

theorem filters_keep_alignment_counterexample:
  "cleanup_output
     [(''dates'', [10::nat, 11, 12]), (''filename'', [40, 41, 42]), (''im_classif'', [20, 21, 22]),
      (''cloud_cover'', [30, 31, 32]), (''satname'', [50, 51, 52])] [1] =
   Inr [(''dates'', [10, 12]), (''filename'', [40, 42]), (''cloud_cover'', [30, 32]),
        (''satname'', [50, 52])] \<and>
   map_of [(''dates'', [10::nat, 12]), (''filename'', [40, 42]), (''cloud_cover'', [30, 32]),
        (''satname'', [50, 52])] ''im_classif'' = None"
  by code_simp


theorem filters_keep_alignment_witness:
  "cleanup_output
     [(''dates'', [10::nat, 11, 12]), (''filename'', [40, 41, 42]), (''im_classif'', [20, 21, 22]),
      (''cloud_cover'', [30, 31, 32]), (''satname'', [50, 51, 52])] [1] =
   Inr [(''dates'', [10, 12]), (''filename'', [40, 42]), (''cloud_cover'', [30, 32]),
        (''satname'', [50, 52])] \<and>
   idx_keep_of 3 [1] = [0, 2] \<and>
   remove_nans [0, 10 * us_per_day, 20 * us_per_day, 40 * us_per_day] [''L8'', ''S2'', ''L8'', ''S2'']
     [Fin 1, NaN, Fin 3, Fin 4] =
   Inr \<lparr>dates_nonans = [0, 20 * us_per_day, 40 * us_per_day],
        satnames_nonans = [''L8'', ''L8'', ''S2''], chain_nonans = [1, 3, 4]\<rparr> \<and>
   nonan_idx [Fin 1, NaN, Fin 3, Fin 4] = [0, 2, 3] \<and>
   align_transect \<lparr>min_days = 3, max_days = 10\<rparr>
     [0, 10 * us_per_day, 20 * us_per_day, 40 * us_per_day] [''L8'', ''S2'', ''L8'', ''S2'']
     [Fin 1, NaN, Fin 3, Fin 4] \<lparr>gt_dates = [0, 19 * us_per_day], gt_chainage = [Fin 5, Fin 7]\<rparr> =
   Inr \<lparr>chain_sat = [1, 3], chain_sur = [5, 7], dates_sat = [0, 20 * us_per_day],
        satnames = [''L8'', ''L8'']\<rparr> \<and>
   taken_at [0, 2, 3] [0, 10 * us_per_day, 20 * us_per_day, 40 * us_per_day]
     [0, 20 * us_per_day, 40 * us_per_day]"
proof -
  let ?out = "[(''dates'', [10::nat, 11, 12]), (''filename'', [40, 41, 42]), (''im_classif'', [20, 21, 22]),
      (''cloud_cover'', [30, 31, 32]), (''satname'', [50, 51, 52])]"
  let ?out' = "[(''dates'', [10::nat, 12]), (''filename'', [40, 42]), (''cloud_cover'', [30, 32]),
        (''satname'', [50, 52])]"
  let ?dates = "[0, 10 * us_per_day, 20 * us_per_day, 40 * us_per_day]"
  let ?sat = "[''L8'', ''S2'', ''L8'', ''S2'']"
  let ?ch = "[Fin 1, NaN, Fin 3, Fin 4]"
  let ?nn = "\<lparr>dates_nonans = [0, 20 * us_per_day, 40 * us_per_day],
        satnames_nonans = [''L8'', ''L8'', ''S2''], chain_nonans = [1, 3, 4]\<rparr>"
  let ?st = "\<lparr>min_days = 3, max_days = 10\<rparr>"
  let ?gt = "\<lparr>gt_dates = [0, 19 * us_per_day], gt_chainage = [Fin 5, Fin 7]\<rparr>"
  let ?a = "\<lparr>chain_sat = [1, 3], chain_sur = [5, 7], dates_sat = [0, 20 * us_per_day],
        satnames = [''L8'', ''L8'']\<rparr>"
  have c: "cleanup_output ?out [1] = Inr ?out'" by code_simp
  have k: "idx_keep_of 3 [1] = [0, 2]" by code_simp
  have r: "remove_nans ?dates ?sat ?ch = Inr ?nn" by code_simp
  have n: "nonan_idx ?ch = [0, 2, 3]" by code_simp
  have a: "align_transect ?st ?dates ?sat ?ch ?gt = Inr ?a" by code_simp
  note t = filters_keep_alignment [where out = ?out and idx_remove = "[1]" and out' = ?out'
      and dates = ?dates and satname = ?sat and chainage = ?ch and nn = ?nn and st = ?st
      and gt = ?gt and a = ?a]
  have "taken_at (nonan_idx ?ch) ?dates (dates_nonans ?nn)"
    using t c r a by blast
  then show ?thesis using c k r n a by simp
qed

lemma match_date_unfold:
  "match_date st gt date =
     (if gt_dates gt = [] then Inl ValueError
      else if min_abs_offset gt date > max_days st then Inr (Assign NaN)
      else if min_abs_offset gt date < min_days st
      then (case py_index (gt_chainage gt) (int (idx_closest_of gt date)) of
              Inl e \<Rightarrow> Inl e | Inr v \<Rightarrow> Inr (Assign v))
      else if \<forall>d\<in>set (days_diff_of (gt_dates gt) date). \<not> d > 0 then Inr Break
      else
        (case py_index (gt_dates gt) (int (idx_after_of gt date) - 1) of
           Inl e \<Rightarrow> Inl e
         | Inr db \<Rightarrow>
        (case py_index (gt_dates gt) (int (idx_after_of gt date)) of
           Inl e \<Rightarrow> Inl e
         | Inr da \<Rightarrow>
        (case py_index (gt_chainage gt) (int (idx_after_of gt date) - 1) of
           Inl e \<Rightarrow> Inl e
         | Inr yb \<Rightarrow>
        (case py_index (gt_chainage gt) (int (idx_after_of gt date)) of
           Inl e \<Rightarrow> Inl e
         | Inr ya \<Rightarrow>
        (case interp1d (toordinal db) (toordinal da) yb ya (toordinal date) of
           Inl e \<Rightarrow> Inl e
         | Inr v \<Rightarrow> Inr (Assign v)))))))"
proof -
  have e: "(length (filter (\<lambda>d. d > 0) (days_diff_of (gt_dates gt) date)) = 0) =
        (\<forall>d\<in>set (days_diff_of (gt_dates gt) date). \<not> d > 0)"
    by (simp add: filter_empty_conv)
  have n: "(days_diff_of (gt_dates gt) date = []) = (gt_dates gt = [])"
    by (simp add: days_diff_of_def)
  show ?thesis
    unfolding match_date_def Let_def e n min_abs_offset_def idx_closest_of_def idx_after_of_def
    by (rule refl)
qed

lemma match_date_far:
  assumes "gt_dates gt \<noteq> []" "min_abs_offset gt date > max_days st"
  shows "match_date st gt date = Inr (Assign NaN)"
  using assms by (simp add: match_date_unfold)

lemma match_date_close:
  assumes "gt_dates gt \<noteq> []" "\<not> min_abs_offset gt date > max_days st"
    "min_abs_offset gt date < min_days st"
  shows "match_date st gt date =
     (case py_index (gt_chainage gt) (int (idx_closest_of gt date)) of
        Inl e \<Rightarrow> Inl e | Inr v \<Rightarrow> Inr (Assign v))"
  using assms by (simp add: match_date_unfold)

lemma match_date_break:
  assumes "gt_dates gt \<noteq> []" "\<not> min_abs_offset gt date > max_days st"
    "\<not> min_abs_offset gt date < min_days st"
    "\<forall>d\<in>set (days_diff_of (gt_dates gt) date). \<not> d > 0"
  shows "match_date st gt date = Inr Break"
  using assms by (simp add: match_date_unfold)

lemma match_date_interp:
  assumes "gt_dates gt \<noteq> []" "\<not> min_abs_offset gt date > max_days st"
    "\<not> min_abs_offset gt date < min_days st"
    "\<not> (\<forall>d\<in>set (days_diff_of (gt_dates gt) date). \<not> d > 0)"
  shows "match_date st gt date =
    (case py_index (gt_dates gt) (int (idx_after_of gt date) - 1) of
       Inl e \<Rightarrow> Inl e
     | Inr db \<Rightarrow>
    (case py_index (gt_dates gt) (int (idx_after_of gt date)) of
       Inl e \<Rightarrow> Inl e
     | Inr da \<Rightarrow>
    (case py_index (gt_chainage gt) (int (idx_after_of gt date) - 1) of
       Inl e \<Rightarrow> Inl e
     | Inr yb \<Rightarrow>
    (case py_index (gt_chainage gt) (int (idx_after_of gt date)) of
       Inl e \<Rightarrow> Inl e
     | Inr ya \<Rightarrow>
    (case interp1d (toordinal db) (toordinal da) yb ya (toordinal date) of
       Inl e \<Rightarrow> Inl e
     | Inr v \<Rightarrow> Inr (Assign v))))))"
  using assms(1-3) unfolding match_date_unfold[of st gt date] if_not_P[OF assms(4)] by simp

lemma match_date_Break_D:
  assumes "match_date st gt date = Inr Break"
  shows "gt_dates gt \<noteq> [] \<and> \<not> min_abs_offset gt date > max_days st \<and>
         \<not> min_abs_offset gt date < min_days st \<and>
         (\<forall>d\<in>set (days_diff_of (gt_dates gt) date). \<not> d > 0)"
proof -
  have ne: "gt_dates gt \<noteq> []"
    using assms by (auto simp: match_date_unfold)
  have far: "\<not> min_abs_offset gt date > max_days st"
    using assms match_date_far[OF ne, of st date] by auto
  have close: "\<not> min_abs_offset gt date < min_days st"
  proof
    assume "min_abs_offset gt date < min_days st"
    from match_date_close[OF ne far this] assms show False
      by (simp split: sum.splits)
  qed
  have nopos: "\<forall>d\<in>set (days_diff_of (gt_dates gt) date). \<not> d > 0"
  proof (rule ccontr)
    assume "\<not> (\<forall>d\<in>set (days_diff_of (gt_dates gt) date). \<not> d > 0)"
    from match_date_interp[OF ne far close this] assms show False
      by (simp split: sum.splits)
  qed
  show ?thesis by (rule conjI[OF ne conjI[OF far conjI[OF close nopos]]])
qed

lemma timedelta_days_mono: "a \<le> b \<Longrightarrow> timedelta_days s b \<le> timedelta_days s a"
  unfolding timedelta_days_def us_per_day_def by (rule zdiv_mono1) simp_all

lemma toordinal_after: "timedelta_days s d > 0 \<Longrightarrow> toordinal d < toordinal s"
proof -
  assume "timedelta_days s d > 0"
  then have "(s - d) div us_per_day \<ge> 1" by (simp add: timedelta_days_def)
  then have "s - d \<ge> us_per_day"
    unfolding us_per_day_def by (simp add: pos_imp_zdiv_pos_iff)
  then have "d + us_per_day \<le> s" by simp
  then have "(d + us_per_day) div us_per_day \<le> s div us_per_day"
    unfolding us_per_day_def by (rule zdiv_mono1) simp
  moreover have "(d + us_per_day) div us_per_day = d div us_per_day + 1"
    unfolding us_per_day_def by simp
  ultimately show ?thesis by (simp add: toordinal_def)
qed

lemma min_abs_offset_le:
  "s \<in> set (gt_dates gt) \<Longrightarrow> min_abs_offset gt d \<le> \<bar>timedelta_days s d\<bar>"
  unfolding min_abs_offset_def days_diff_of_def by (rule Min_le) auto

lemma min_abs_offset_ge:
  assumes "gt_dates gt \<noteq> []" "\<forall>s\<in>set (gt_dates gt). c \<le> \<bar>timedelta_days s d\<bar>"
  shows "c \<le> min_abs_offset gt d"
proof -
  have "set (map abs (days_diff_of (gt_dates gt) d)) \<noteq> {}" using assms(1)
    by (simp add: days_diff_of_def)
  then show ?thesis
    unfolding min_abs_offset_def using assms(2)
    by (subst Min_ge_iff) (auto simp: days_diff_of_def)
qed

lemma break_persists:
  assumes "match_date st gt d' = Inr Break" "d' \<le> d"
  shows "\<not> min_abs_offset gt d < min_days st \<and>
         (\<forall>x\<in>set (days_diff_of (gt_dates gt) d). \<not> x > 0)"
proof -
  note B = match_date_Break_D[OF assms(1)]
  have ne: "gt_dates gt \<noteq> []" using B by (rule conjunct1)
  have close: "\<not> min_abs_offset gt d' < min_days st"
    using B[THEN conjunct2, THEN conjunct2, THEN conjunct1] .
  have nopos: "\<forall>x\<in>set (days_diff_of (gt_dates gt) d'). \<not> x > 0"
    using B[THEN conjunct2, THEN conjunct2, THEN conjunct2] .
  have le0: "timedelta_days s d \<le> 0 \<and> min_days st \<le> \<bar>timedelta_days s d\<bar>"
    if s: "s \<in> set (gt_dates gt)" for s
  proof -
    have a: "timedelta_days s d' \<le> 0" using nopos s by (auto simp: days_diff_of_def)
    have b: "min_days st \<le> \<bar>timedelta_days s d'\<bar>"
      using close min_abs_offset_le[OF s, of d'] by linarith
    have c: "timedelta_days s d \<le> timedelta_days s d'"
      by (rule timedelta_days_mono[OF assms(2)])
    show ?thesis using a b c by linarith
  qed
  have "\<forall>s\<in>set (gt_dates gt). min_days st \<le> \<bar>timedelta_days s d\<bar>"
    using le0 by blast
  then have "min_days st \<le> min_abs_offset gt d"
    by (rule min_abs_offset_ge[OF ne])
  moreover have "\<forall>x\<in>set (days_diff_of (gt_dates gt) d). \<not> x > 0"
  proof
    fix x assume "x \<in> set (days_diff_of (gt_dates gt) d)"
    then obtain s where s: "s \<in> set (gt_dates gt)" "x = timedelta_days s d"
      by (auto simp: days_diff_of_def)
    from le0[OF s(1)] have "timedelta_days s d \<le> 0" by (rule conjunct1)
    then show "\<not> x > 0" using s(2) by simp
  qed
  ultimately show ?thesis by simp
qed

lemma match_loop_prefix:
  assumes "\<forall>d\<in>set pre. \<exists>v. match_date st gt d = Inr (Assign v)"
  shows "\<exists>ws. length ws = length pre \<and>
     (\<forall>i<length pre. match_date st gt (pre ! i) = Inr (Assign (ws ! i))) \<and>
     (\<forall>rest. match_loop st gt (pre @ rest) =
        (case match_loop st gt rest of Inl e \<Rightarrow> Inl e | Inr vs \<Rightarrow> Inr (ws @ vs)))"
  using assms
proof (induction pre)
  case Nil
  show ?case by (rule exI[of _ "[]"]) (simp split: sum.splits)
next
  case (Cons d pre)
  from Cons.prems obtain v where v: "match_date st gt d = Inr (Assign v)" by auto
  from Cons.prems have "\<forall>d\<in>set pre. \<exists>v. match_date st gt d = Inr (Assign v)" by simp
  from Cons.IH[OF this] obtain ws where ws: "length ws = length pre"
    "\<forall>i<length pre. match_date st gt (pre ! i) = Inr (Assign (ws ! i))"
    "\<forall>rest. match_loop st gt (pre @ rest) =
        (case match_loop st gt rest of Inl e \<Rightarrow> Inl e | Inr vs \<Rightarrow> Inr (ws @ vs))"
    by blast
  have a: "length (v # ws) = length (d # pre)" using ws(1) by simp
  have b: "\<forall>i<length (d # pre). match_date st gt ((d # pre) ! i) = Inr (Assign ((v # ws) ! i))"
    using v ws(2) by (simp add: nth_Cons split: nat.splits)
  have c: "\<forall>rest. match_loop st gt ((d # pre) @ rest) =
        (case match_loop st gt rest of Inl e \<Rightarrow> Inl e | Inr vs \<Rightarrow> Inr ((v # ws) @ vs))"
    using v ws(3) by (simp split: sum.splits)
  show ?case by (rule exI[of _ "v # ws"]) (rule conjI[OF a conjI[OF b c]])
qed

lemma match_loop_nth:
  assumes "match_loop st gt ds = Inr ci" "k < length ds"
  shows "(\<exists>j\<le>k. match_date st gt (ds ! j) = Inr Break \<and> ci ! k = NaN) \<or>
         match_date st gt (ds ! k) = Inr (Assign (ci ! k))"
  using assms
proof (induction ds arbitrary: ci k)
  case Nil
  then show ?case by simp
next
  case (Cons d ds)
  show ?case
  proof (cases "match_date st gt d")
    case (Inl e)
    with Cons.prems show ?thesis by simp
  next
    case (Inr stp)
    show ?thesis
    proof (cases stp)
      case Break
      with Inr Cons.prems have ci: "ci = replicate (Suc (length ds)) NaN" by simp
      have "ci ! k = NaN" unfolding ci using Cons.prems(2) by (simp del: replicate_Suc)
      moreover have "match_date st gt ((d # ds) ! 0) = Inr Break" using Inr Break by simp
      ultimately show ?thesis by blast
    next
      case (Assign v)
      with Inr Cons.prems obtain vs where vs: "match_loop st gt ds = Inr vs" and ci: "ci = v # vs"
        by (auto split: sum.splits)
      show ?thesis
      proof (cases k)
        case 0
        then show ?thesis using Inr Assign ci by simp
      next
        case (Suc k')
        then have k': "k' < length ds" using Cons.prems(2) by simp
        from Cons.IH[OF vs k'] show ?thesis
        proof
          assume "\<exists>j\<le>k'. match_date st gt (ds ! j) = Inr Break \<and> vs ! k' = NaN"
          then obtain j where j: "j \<le> k'" "match_date st gt (ds ! j) = Inr Break" "vs ! k' = NaN"
            by blast
          have "Suc j \<le> k" using j(1) Suc by simp
          moreover have "match_date st gt ((d # ds) ! Suc j) = Inr Break" using j(2) by simp
          moreover have "ci ! k = NaN" using j(3) ci Suc by simp
          ultimately show ?thesis by blast
        next
          assume "match_date st gt (ds ! k') = Inr (Assign (vs ! k'))"
          then show ?thesis using ci Suc by simp
        qed
      qed
    qed
  qed
qed

lemma py_index_nonneg:
  "0 \<le> i \<Longrightarrow> py_index xs i = (if i < int (length xs) then Inr (xs ! nat i) else Inl IndexError)"
  by (simp add: py_index_def)

lemma interp1d_InrD:
  assumes "interp1d x0 x1 y0 y1 xn = Inr v" "xn < x1"
  shows "x0 \<le> xn \<and> v = lin_interp x0 y0 x1 y1 xn"
proof (cases "x0 \<le> x1")
  case True
  then show ?thesis using assms by (auto simp: interp1d_def split: if_splits)
next
  case False
  then show ?thesis using assms by (auto simp: interp1d_def split: if_splits)
qed

lemma match_loop_gt_nonempty:
  assumes "match_loop st gt ds = Inr ci" "ds \<noteq> []"
  shows "gt_dates gt \<noteq> []"
proof
  assume e: "gt_dates gt = []"
  obtain d ds' where ds: "ds = d # ds'" using assms(2) by (cases ds) auto
  have "match_date st gt d = Inl ValueError" using e by (simp add: match_date_unfold)
  then show False using assms(1) ds by simp
qed

lemma reached_unless_break:
  assumes "match_loop st gt ds = Inr ci" "sorted ds" "k < length ds"
    "min_abs_offset gt (ds ! k) < min_days st \<or>
     \<not> (\<forall>x\<in>set (days_diff_of (gt_dates gt) (ds ! k)). \<not> x > 0)"
  shows "match_date st gt (ds ! k) = Inr (Assign (ci ! k))"
proof -
  from match_loop_nth[OF assms(1,3)] show ?thesis
  proof
    assume "\<exists>j\<le>k. match_date st gt (ds ! j) = Inr Break \<and> ci ! k = NaN"
    then obtain j where j: "j \<le> k" "match_date st gt (ds ! j) = Inr Break" by blast
    have "ds ! j \<le> ds ! k" using assms(2,3) j(1) by (simp add: sorted_nth_mono)
    from break_persists[OF j(2) this] assms(4) show ?thesis by blast
  qed
qed

text \<open>
  Claim C3, as the code has it. For a run of the matching loop that raises no error, on
  dates in chronological order, and for the date \<open>D\<close> at any position \<open>k\<close>: if the
  smallest absolute day offset exceeds \<open>max_days\<close>, the entry is \<open>NaN\<close> and \<open>k\<close> is
  not among the aligned pairs; otherwise, if it is strictly less than \<open>min_days\<close>, the
  entry is the chainage of the first survey date at that offset; otherwise (from
  \<open>min_days\<close> up to \<open>max_days\<close>, both included), if some survey date has a positive
  day offset and the first such is not the first survey date, the entry is the linear
  interpolation between that survey point and the one before it, which bracket \<open>D\<close>.
  Without a survey date of positive offset no value is produced (the \<^verbatim>\<open>break\<close>), and
  for a date before the first survey date \<^verbatim>\<open>interp1d\<close> raises: see the counterexample.
\<close>

theorem temporal_matching_cases:
  assumes "match_loop st gt ds = Inr ci" "sorted ds" "k < length ds"
  shows "(max_days st < min_abs_offset gt (ds ! k) \<longrightarrow>
            ci ! k = NaN \<and> k \<notin> set (nonan_idx ci)) \<and>
         (\<not> max_days st < min_abs_offset gt (ds ! k) \<and>
          min_abs_offset gt (ds ! k) < min_days st \<longrightarrow>
            idx_closest_of gt (ds ! k) < length (gt_dates gt) \<and>
            \<bar>timedelta_days (gt_dates gt ! idx_closest_of gt (ds ! k)) (ds ! k)\<bar> =
               min_abs_offset gt (ds ! k) \<and>
            (\<forall>i<idx_closest_of gt (ds ! k).
               \<bar>timedelta_days (gt_dates gt ! i) (ds ! k)\<bar> \<noteq> min_abs_offset gt (ds ! k)) \<and>
            idx_closest_of gt (ds ! k) < length (gt_chainage gt) \<and>
            ci ! k = gt_chainage gt ! idx_closest_of gt (ds ! k)) \<and>
         (\<not> max_days st < min_abs_offset gt (ds ! k) \<and>
          \<not> min_abs_offset gt (ds ! k) < min_days st \<and>
          (\<exists>x\<in>set (days_diff_of (gt_dates gt) (ds ! k)). 0 < x) \<and>
          0 < idx_after_of gt (ds ! k) \<longrightarrow>
            idx_after_of gt (ds ! k) < length (gt_dates gt) \<and>
            idx_after_of gt (ds ! k) < length (gt_chainage gt) \<and>
            toordinal (gt_dates gt ! (idx_after_of gt (ds ! k) - 1)) \<le> toordinal (ds ! k) \<and>
            toordinal (ds ! k) < toordinal (gt_dates gt ! idx_after_of gt (ds ! k)) \<and>
            ci ! k =
              lin_interp (toordinal (gt_dates gt ! (idx_after_of gt (ds ! k) - 1)))
                (gt_chainage gt ! (idx_after_of gt (ds ! k) - 1))
                (toordinal (gt_dates gt ! idx_after_of gt (ds ! k)))
                (gt_chainage gt ! idx_after_of gt (ds ! k))
                (toordinal (ds ! k)))"
proof -
  let ?D = "ds ! k"
  let ?dd = "days_diff_of (gt_dates gt) ?D"
  have "ds \<noteq> []" using assms(3) by auto
  then have ne: "gt_dates gt \<noteq> []"
    by (rule match_loop_gt_nonempty[OF assms(1)])
  have len_dd: "length ?dd = length (gt_dates gt)" by (simp add: days_diff_of_def)
  have dd_nth: "?dd ! i = timedelta_days (gt_dates gt ! i) ?D" if "i < length (gt_dates gt)" for i
    using that by (simp add: days_diff_of_def)
  have A: "ci ! k = NaN \<and> k \<notin> set (nonan_idx ci)" if far: "max_days st < min_abs_offset gt ?D"
  proof -
    have nan: "ci ! k = NaN"
      using match_loop_nth[OF assms(1,3)] match_date_far[OF ne far] by auto
    then show ?thesis by (simp add: nonan_idx_props(3))
  qed
  have B: "idx_closest_of gt ?D < length (gt_dates gt) \<and>
            \<bar>timedelta_days (gt_dates gt ! idx_closest_of gt ?D) ?D\<bar> = min_abs_offset gt ?D \<and>
            (\<forall>i<idx_closest_of gt ?D.
               \<bar>timedelta_days (gt_dates gt ! i) ?D\<bar> \<noteq> min_abs_offset gt ?D) \<and>
            idx_closest_of gt ?D < length (gt_chainage gt) \<and>
            ci ! k = gt_chainage gt ! idx_closest_of gt ?D"
    if nfar: "\<not> max_days st < min_abs_offset gt ?D" and close: "min_abs_offset gt ?D < min_days st"
  proof -
    let ?P = "\<lambda>d. \<bar>d\<bar> = min_abs_offset gt ?D"
    let ?ic = "idx_closest_of gt ?D"
    have md: "match_date st gt ?D = Inr (Assign (ci ! k))"
      by (rule reached_unless_break[OF assms]) (simp add: close)
    have "set (map abs ?dd) \<noteq> {}" using ne by (simp add: days_diff_of_def)
    then have "min_abs_offset gt ?D \<in> set (map abs ?dd)"
      unfolding min_abs_offset_def by (intro Min_in) simp_all
    then have ex: "\<exists>x\<in>set ?dd. ?P x" by auto
    from first_index_props[OF ex] have ic: "?ic < length ?dd" "?P (?dd ! ?ic)"
      by (simp_all add: idx_closest_of_def)
    have b1: "?ic < length (gt_dates gt)" using ic(1) len_dd by simp
    have b2: "\<bar>timedelta_days (gt_dates gt ! ?ic) ?D\<bar> = min_abs_offset gt ?D"
      using ic(2) dd_nth[OF b1] by simp
    have b3: "\<forall>i<?ic. \<bar>timedelta_days (gt_dates gt ! i) ?D\<bar> \<noteq> min_abs_offset gt ?D"
    proof (intro allI impI)
      fix i assume i: "i < ?ic"
      then have "\<not> ?P (?dd ! i)"
        unfolding idx_closest_of_def by (rule first_index_least)
      moreover have "i < length (gt_dates gt)" using i b1 by simp
      ultimately show "\<bar>timedelta_days (gt_dates gt ! i) ?D\<bar> \<noteq> min_abs_offset gt ?D"
        using dd_nth by simp
    qed
    have "(case py_index (gt_chainage gt) (int ?ic) of
            Inl e \<Rightarrow> Inl e | Inr v \<Rightarrow> Inr (Assign v)) = Inr (Assign (ci ! k))"
      using md match_date_close[OF ne nfar close] by simp
    then have "py_index (gt_chainage gt) (int ?ic) = Inr (ci ! k)"
      by (simp split: sum.splits)
    then have b45: "?ic < length (gt_chainage gt) \<and> ci ! k = gt_chainage gt ! ?ic"
      by (simp add: py_index_nonneg split: if_splits)
    show ?thesis
      by (rule conjI[OF b1 conjI[OF b2 conjI[OF b3 b45]]])
  qed
  have C: "idx_after_of gt ?D < length (gt_dates gt) \<and>
            idx_after_of gt ?D < length (gt_chainage gt) \<and>
            toordinal (gt_dates gt ! (idx_after_of gt ?D - 1)) \<le> toordinal ?D \<and>
            toordinal ?D < toordinal (gt_dates gt ! idx_after_of gt ?D) \<and>
            ci ! k =
              lin_interp (toordinal (gt_dates gt ! (idx_after_of gt ?D - 1)))
                (gt_chainage gt ! (idx_after_of gt ?D - 1))
                (toordinal (gt_dates gt ! idx_after_of gt ?D))
                (gt_chainage gt ! idx_after_of gt ?D)
                (toordinal ?D)"
    if nfar: "\<not> max_days st < min_abs_offset gt ?D"
      and nclose: "\<not> min_abs_offset gt ?D < min_days st"
      and pos: "\<exists>x\<in>set ?dd. 0 < x" and ia0: "0 < idx_after_of gt ?D"
  proof -
    let ?ia = "idx_after_of gt ?D"
    have npos: "\<not> (\<forall>x\<in>set ?dd. \<not> x > 0)" using pos by blast
    have md: "match_date st gt ?D = Inr (Assign (ci ! k))"
      by (rule reached_unless_break[OF assms]) (simp add: npos)
    from first_index_props[OF pos] have ia: "?ia < length ?dd" "0 < ?dd ! ?ia"
      by (simp_all add: idx_after_of_def)
    have c1: "?ia < length (gt_dates gt)" using ia(1) len_dd by simp
    have after: "0 < timedelta_days (gt_dates gt ! ?ia) ?D" using ia(2) dd_nth[OF c1] by simp
    have c4: "toordinal ?D < toordinal (gt_dates gt ! ?ia)" by (rule toordinal_after[OF after])
    have nn: "0 \<le> int ?ia - 1" "nat (int ?ia - 1) = ?ia - 1" "int ?ia - 1 < int (length (gt_dates gt))"
      using ia0 c1 by simp_all
    have pb: "py_index (gt_dates gt) (int ?ia - 1) = Inr (gt_dates gt ! (?ia - 1))"
      using nn by (simp add: py_index_nonneg)
    have pa: "py_index (gt_dates gt) (int ?ia) = Inr (gt_dates gt ! ?ia)"
      using c1 by (simp add: py_index_nonneg)
    note M = md[unfolded match_date_interp[OF ne nfar nclose npos] pb pa, simplified]
    from M obtain yb where yb: "py_index (gt_chainage gt) (int ?ia - 1) = Inr yb"
      by (cases "py_index (gt_chainage gt) (int ?ia - 1)") simp_all
    from M yb obtain ya where ya: "py_index (gt_chainage gt) (int ?ia) = Inr ya"
      by (cases "py_index (gt_chainage gt) (int ?ia)") simp_all
    from M yb ya have iv: "interp1d (toordinal (gt_dates gt ! (?ia - 1)))
        (toordinal (gt_dates gt ! ?ia)) yb ya (toordinal ?D) = Inr (ci ! k)"
      by (simp split: sum.splits)
    have c2: "?ia < length (gt_chainage gt)" and ya': "ya = gt_chainage gt ! ?ia"
      using ya by (simp_all add: py_index_nonneg split: if_splits)
    have yb': "yb = gt_chainage gt ! (?ia - 1)"
      using yb nn(1,2) by (simp add: py_index_nonneg split: if_splits)
    from interp1d_InrD[OF iv c4]
    have c3: "toordinal (gt_dates gt ! (?ia - 1)) \<le> toordinal ?D"
      and c5: "ci ! k = lin_interp (toordinal (gt_dates gt ! (?ia - 1))) yb
                (toordinal (gt_dates gt ! ?ia)) ya (toordinal ?D)"
      by simp_all
    show ?thesis
      using c1 c2 c3 c4 c5 unfolding ya' yb' by simp
  qed
  show ?thesis using A B C by blast
qed

theorem temporal_matching_counterexample:
  "min_abs_offset \<lparr>gt_dates = [0], gt_chainage = [Fin 5]\<rparr> (3 * us_per_day) = 3 \<and>
   match_date \<lparr>min_days = 3, max_days = 10\<rparr> \<lparr>gt_dates = [0], gt_chainage = [Fin 5]\<rparr>
     (3 * us_per_day) = Inr Break \<and>
   match_loop \<lparr>min_days = 3, max_days = 10\<rparr> \<lparr>gt_dates = [0], gt_chainage = [Fin 5]\<rparr>
     [3 * us_per_day] = Inr [NaN] \<and>
   min_abs_offset \<lparr>gt_dates = [10 * us_per_day, 20 * us_per_day], gt_chainage = [Fin 5, Fin 7]\<rparr>
     (5 * us_per_day) = 5 \<and>
   match_loop \<lparr>min_days = 3, max_days = 10\<rparr>
     \<lparr>gt_dates = [10 * us_per_day, 20 * us_per_day], gt_chainage = [Fin 5, Fin 7]\<rparr>
     [5 * us_per_day] = Inl ValueError"
  by code_simp


theorem temporal_matching_cases_witness:
  "match_loop \<lparr>min_days = 3, max_days = 10\<rparr>
     \<lparr>gt_dates = [0, 10 * us_per_day, 50 * us_per_day], gt_chainage = [Fin 5, Fin 7, Fin 9]\<rparr>
     [2 * us_per_day, 3 * us_per_day, 25 * us_per_day] = Inr [Fin 5, Fin (28 / 5), NaN] \<and>
   sorted [2 * us_per_day, 3 * us_per_day, 25 * us_per_day] \<and>
   days_diff_of [0, 10 * us_per_day, 50 * us_per_day] (2 * us_per_day) = [- 2, 8, 48] \<and>
   days_diff_of [0, 10 * us_per_day, 50 * us_per_day] (3 * us_per_day) = [- 3, 7, 47] \<and>
   days_diff_of [0, 10 * us_per_day, 50 * us_per_day] (25 * us_per_day) = [- 25, - 15, 25] \<and>
   idx_after_of \<lparr>gt_dates = [0, 10 * us_per_day, 50 * us_per_day],
                 gt_chainage = [Fin 5, Fin 7, Fin 9]\<rparr> (3 * us_per_day) = 1 \<and>
   lin_interp (toordinal 0) (Fin 5) (toordinal (10 * us_per_day)) (Fin 7) (toordinal (3 * us_per_day)) =
     Fin (28 / 5)"
proof -
  let ?st = "\<lparr>min_days = 3, max_days = 10\<rparr>"
  let ?gt = "\<lparr>gt_dates = [0, 10 * us_per_day, 50 * us_per_day], gt_chainage = [Fin 5, Fin 7, Fin 9]\<rparr>"
  let ?ds = "[2 * us_per_day, 3 * us_per_day, 25 * us_per_day]"
  have e: "match_loop ?st ?gt ?ds = Inr [Fin 5, Fin (28 / 5), NaN]" by code_simp
  have s: "sorted ?ds" by code_simp
  have m: "min_abs_offset ?gt (?ds ! 0) = 2" "min_abs_offset ?gt (?ds ! 1) = 3"
    "min_abs_offset ?gt (?ds ! 2) = 15" by code_simp+
  have d: "days_diff_of [0, 10 * us_per_day, 50 * us_per_day] (2 * us_per_day) = [- 2, 8, 48]"
    "days_diff_of [0, 10 * us_per_day, 50 * us_per_day] (3 * us_per_day) = [- 3, 7, 47]"
    "days_diff_of [0, 10 * us_per_day, 50 * us_per_day] (25 * us_per_day) = [- 25, - 15, 25]"
    by code_simp+
  have ia: "idx_after_of ?gt (3 * us_per_day) = 1" by code_simp
  have li: "lin_interp (toordinal 0) (Fin 5) (toordinal (10 * us_per_day)) (Fin 7)
      (toordinal (3 * us_per_day)) = Fin (28 / 5)" by code_simp
  have k0: "[Fin 5, Fin (28 / 5), NaN] ! 0 = gt_chainage ?gt ! idx_closest_of ?gt (?ds ! 0)"
    using temporal_matching_cases [OF e s, of 0] m(1) by simp
  have k1: "[Fin 5, Fin (28 / 5), NaN] ! 1 =
      lin_interp (toordinal (gt_dates ?gt ! (idx_after_of ?gt (?ds ! 1) - 1)))
        (gt_chainage ?gt ! (idx_after_of ?gt (?ds ! 1) - 1))
        (toordinal (gt_dates ?gt ! idx_after_of ?gt (?ds ! 1)))
        (gt_chainage ?gt ! idx_after_of ?gt (?ds ! 1)) (toordinal (?ds ! 1))"
    using temporal_matching_cases [OF e s, of 1] m(2) d(2) ia by simp
  have k2: "[Fin 5, Fin (28 / 5), NaN] ! 2 = NaN"
    using temporal_matching_cases [OF e s, of 2] m(3) by simp
  show ?thesis using e s d ia li k0 k1 k2 by simp
qed


text \<open>
  Claim C6. Let the dates before \<open>D\<close> each have got a value, and let \<open>D\<close> have its
  smallest absolute offset in the interpolation range and no survey date of positive
  day offset. Then the loop breaks at \<open>D\<close>: the entries of \<open>D\<close> and of every later date
  stay \<open>NaN\<close>, whatever those dates are, and only indices before \<open>D\<close> can give an
  aligned pair.
\<close>

theorem break_stops_transect:
  assumes "\<forall>d\<in>set pre. \<exists>v. match_date st gt d = Inr (Assign v)"
    "gt_dates gt \<noteq> []"
    "\<not> max_days st < min_abs_offset gt D" "\<not> min_abs_offset gt D < min_days st"
    "\<forall>x\<in>set (days_diff_of (gt_dates gt) D). \<not> 0 < x"
  shows "match_date st gt D = Inr Break \<and>
     (\<exists>ws. length ws = length pre \<and>
        (\<forall>i<length pre. match_date st gt (pre ! i) = Inr (Assign (ws ! i))) \<and>
        match_loop st gt (pre @ D # post) = Inr (ws @ replicate (Suc (length post)) NaN) \<and>
        set (nonan_idx (ws @ replicate (Suc (length post)) NaN)) \<subseteq> {..<length pre})"
proof -
  have br: "match_date st gt D = Inr Break"
    by (rule match_date_break[OF assms(2-5)])
  from match_loop_prefix[OF assms(1)] obtain ws where ws: "length ws = length pre"
    "\<forall>i<length pre. match_date st gt (pre ! i) = Inr (Assign (ws ! i))"
    "\<forall>rest. match_loop st gt (pre @ rest) =
        (case match_loop st gt rest of Inl e \<Rightarrow> Inl e | Inr vs \<Rightarrow> Inr (ws @ vs))"
    by blast
  have "match_loop st gt (D # post) = Inr (replicate (Suc (length post)) NaN)"
    using br by simp
  then have ml: "match_loop st gt (pre @ D # post) = Inr (ws @ replicate (Suc (length post)) NaN)"
    using ws(3) by simp
  have sub: "set (nonan_idx (ws @ replicate (Suc (length post)) NaN)) \<subseteq> {..<length pre}"
  proof
    fix k assume "k \<in> set (nonan_idx (ws @ replicate (Suc (length post)) NaN))"
    then have k: "k < length (ws @ replicate (Suc (length post)) NaN)"
      "\<not> isnan ((ws @ replicate (Suc (length post)) NaN) ! k)"
      unfolding nonan_idx_props(3) by simp_all
    have "k < length ws"
    proof (rule ccontr)
      assume "\<not> k < length ws"
      then have "(ws @ replicate (Suc (length post)) NaN) ! k = NaN"
        using k(1) by (simp add: nth_append del: replicate_Suc)
      then show False using k(2) by simp
    qed
    then show "k \<in> {..<length pre}" using ws(1) by simp
  qed
  have "length ws = length pre \<and>
        (\<forall>i<length pre. match_date st gt (pre ! i) = Inr (Assign (ws ! i))) \<and>
        match_loop st gt (pre @ D # post) = Inr (ws @ replicate (Suc (length post)) NaN) \<and>
        set (nonan_idx (ws @ replicate (Suc (length post)) NaN)) \<subseteq> {..<length pre}"
    by (rule conjI[OF ws(1) conjI[OF ws(2) conjI[OF ml sub]]])
  then have "\<exists>ws. length ws = length pre \<and>
        (\<forall>i<length pre. match_date st gt (pre ! i) = Inr (Assign (ws ! i))) \<and>
        match_loop st gt (pre @ D # post) = Inr (ws @ replicate (Suc (length post)) NaN) \<and>
        set (nonan_idx (ws @ replicate (Suc (length post)) NaN)) \<subseteq> {..<length pre}"
    by blast
  then show ?thesis using br by simp
qed

theorem break_stops_transect_witness:
  "match_date \<lparr>min_days = 3, max_days = 10\<rparr> \<lparr>gt_dates = [0], gt_chainage = [Fin 5]\<rparr> 0 =
     Inr (Assign (Fin 5)) \<and>
   min_abs_offset \<lparr>gt_dates = [0], gt_chainage = [Fin 5]\<rparr> (3 * us_per_day) = 3 \<and>
   days_diff_of [0] (3 * us_per_day) = [- 3] \<and>
   match_date \<lparr>min_days = 3, max_days = 10\<rparr> \<lparr>gt_dates = [0], gt_chainage = [Fin 5]\<rparr>
     (3 * us_per_day) = Inr Break \<and>
   match_date \<lparr>min_days = 3, max_days = 10\<rparr> \<lparr>gt_dates = [0], gt_chainage = [Fin 5]\<rparr>
     us_per_day = Inr (Assign (Fin 5)) \<and>
   match_loop \<lparr>min_days = 3, max_days = 10\<rparr> \<lparr>gt_dates = [0], gt_chainage = [Fin 5]\<rparr>
     [0, 3 * us_per_day, us_per_day] = Inr [Fin 5, NaN, NaN] \<and>
   nonan_idx [Fin 5, NaN, NaN] = [0]"
proof -
  let ?st = "\<lparr>min_days = 3, max_days = 10\<rparr>"
  let ?gt = "\<lparr>gt_dates = [0], gt_chainage = [Fin 5]\<rparr>"
  have p: "\<forall>d\<in>set [0]. \<exists>v. match_date ?st ?gt d = Inr (Assign v)"
  proof -
    have "match_date ?st ?gt 0 = Inr (Assign (Fin 5))" by code_simp
    then show ?thesis by simp
  qed
  have ne: "gt_dates ?gt \<noteq> []" by simp
  have m: "min_abs_offset ?gt (3 * us_per_day) = 3" by code_simp
  have d: "days_diff_of [0] (3 * us_per_day) = [- 3]" by code_simp
  have h3: "\<not> max_days ?st < min_abs_offset ?gt (3 * us_per_day)" unfolding m by simp
  have h4: "\<not> min_abs_offset ?gt (3 * us_per_day) < min_days ?st" unfolding m by simp
  have h5: "\<forall>x\<in>set (days_diff_of (gt_dates ?gt) (3 * us_per_day)). \<not> 0 < x"
    using d by simp
  have b: "match_date ?st ?gt (3 * us_per_day) = Inr Break"
    using break_stops_transect [OF p ne h3 h4 h5, of "[us_per_day]"] by (rule conjunct1)
  have rest: "match_date ?st ?gt 0 = Inr (Assign (Fin 5)) \<and>
     match_date ?st ?gt us_per_day = Inr (Assign (Fin 5)) \<and>
     match_loop ?st ?gt [0, 3 * us_per_day, us_per_day] = Inr [Fin 5, NaN, NaN] \<and>
     nonan_idx [Fin 5, NaN, NaN] = [0]" by code_simp
  show ?thesis using b m d rest by simp
qed


lemma aggregate_stats_InrD:
  assumes "aggregate_stats lr p = Inr a"
  shows "\<exists>sat sur. last_pairs p = Some (sat, sur) \<and> lr sur sat = Inr (ag_regress a) \<and>
     ag_chain_error a = map (\<lambda>(a, b). a - b) (zip (chain_sat_all p) (chain_sur_all p)) \<and>
     ag_mean a = np_mean (ag_chain_error a) \<and>
     ag_rmse a = np_sqrt (np_mean (map (\<lambda>e. e ^ 2) (ag_chain_error a))) \<and>
     ag_std a = np_std (ag_chain_error a) \<and>
     ag_q90 a = np_percentile (map abs (ag_chain_error a)) 90"
proof -
  from assms obtain sat sur where l: "last_pairs p = Some (sat, sur)"
    by (cases "last_pairs p") (auto simp: aggregate_stats_def)
  from assms l obtain reg where r: "lr sur sat = Inr reg"
    by (cases "lr sur sat") (auto simp: aggregate_stats_def)
  from assms l r show ?thesis
    by (auto simp: aggregate_stats_def Let_def)
qed

lemma transects_loop_snoc:
  "transects_loop lr st dates satname (ts @ [(chainage, gt)]) acc = Inr p \<Longrightarrow>
   \<exists>a. align_transect st dates satname chainage gt = Inr a \<and>
       last_pairs p = Some (chain_sat a, chain_sur a)"
proof (induction ts arbitrary: acc)
  case Nil
  then show ?case by (auto split: sum.splits)
next
  case (Cons t ts)
  obtain c g where t: "t = (c, g)" by (cases t)
  from Cons.prems t obtain acc' where
    "transects_loop lr st dates satname (ts @ [(chainage, gt)]) acc' = Inr p"
    by (auto split: sum.splits)
  from Cons.IH[OF this] show ?case .
qed

lemma linregress_last: "\<exists>r. linregress [0, 1] [0, 2] = Inr (Fin 2, Fin 0, r)"
  by (simp add: linregress_def Let_def power2_eq_square)

lemma linregress_first: "\<exists>r. linregress [0, 1] [0, 1] = Inr (Fin 1, Fin 0, r)"
  by (simp add: linregress_def Let_def power2_eq_square)

lemma linregress_pooled: "\<exists>r. linregress [0, 1, 0, 1] [0, 1, 0, 2] = Inr (Fin (3 / 2), Fin 0, r)"
  by (simp add: linregress_def Let_def power2_eq_square)

text \<open>
  Claim C1, at a failing input. Two transects with the aligned pairs (survey, satellite)
  \<open>(0, 0), (1, 1)\<close> and \<open>(0, 0), (1, 2)\<close>: the error vector of the aggregate block is
  the pooled one (four entries, mean 1/4), but line 476 calls
  \<^verbatim>\<open>linregress(chain_sur, chain_sat)\<close> on the variables that the loop left behind, so
  the aggregate slope is 2, the slope of the last transect alone, and not 3/2, the slope
  of the pooled pairs.
\<close>

theorem aggregate_regression_last_transect:
  "map_sum id (\<lambda>a. (fst (ag_regress a), fst (snd (ag_regress a)), ag_chain_error a, ag_mean a))
     (validation linregress \<lparr>min_days = 3, max_days = 10\<rparr> [0, 10 * us_per_day] [''L8'', ''S2'']
        [([Fin 0, Fin 1], \<lparr>gt_dates = [0, 10 * us_per_day], gt_chainage = [Fin 0, Fin 1]\<rparr>),
         ([Fin 0, Fin 2], \<lparr>gt_dates = [0, 10 * us_per_day], gt_chainage = [Fin 0, Fin 1]\<rparr>)]) =
     Inr (Fin 2, Fin 0, [0, 0, 0, 1], Fin (1 / 4)) \<and>
   map_sum id (\<lambda>r. (fst r, fst (snd r))) (linregress [0, 1] [0, 2]) = Inr (Fin 2, Fin 0) \<and>
   map_sum id (\<lambda>r. (fst r, fst (snd r))) (linregress [0, 1, 0, 1] [0, 1, 0, 2]) =
     Inr (Fin (3 / 2), Fin 0)"
proof -
  let ?st = "\<lparr>min_days = 3, max_days = 10\<rparr>"
  let ?dates = "[0, 10 * us_per_day]"
  let ?sat = "[''L8'', ''S2'']"
  let ?gt = "\<lparr>gt_dates = [0, 10 * us_per_day], gt_chainage = [Fin 0, Fin 1]\<rparr>"
  have a1: "align_transect ?st ?dates ?sat [Fin 0, Fin 1] ?gt =
      Inr \<lparr>chain_sat = [0, 1], chain_sur = [0, 1], dates_sat = ?dates, satnames = ?sat\<rparr>"
    by code_simp
  have a2: "align_transect ?st ?dates ?sat [Fin 0, Fin 2] ?gt =
      Inr \<lparr>chain_sat = [0, 2], chain_sur = [0, 1], dates_sat = ?dates, satnames = ?sat\<rparr>"
    by code_simp
  obtain r1 where l1: "linregress [0, 1] [0, 1] = Inr (Fin 1, Fin 0, r1)"
    using linregress_first by blast
  obtain r2 where l2: "linregress [0, 1] [0, 2] = Inr (Fin 2, Fin 0, r2)"
    using linregress_last by blast
  obtain r3 where l3: "linregress [0, 1, 0, 1] [0, 1, 0, 2] = Inr (Fin (3 / 2), Fin 0, r3)"
    using linregress_pooled by blast
  have tl: "transects_loop linregress ?st ?dates ?sat
      [([Fin 0, Fin 1], ?gt), ([Fin 0, Fin 2], ?gt)] pooled_init =
      Inr \<lparr>chain_sat_all = [0, 1, 0, 2], chain_sur_all = [0, 1, 0, 1],
           satnames_all = ?sat @ ?sat, last_pairs = Some ([0, 2], [0, 1])\<rparr>"
    by (simp add: a1 a2 l1 l2 pooled_init_def)
  have v: "map_sum id (\<lambda>a. (fst (ag_regress a), fst (snd (ag_regress a)), ag_chain_error a, ag_mean a))
     (validation linregress ?st ?dates ?sat [([Fin 0, Fin 1], ?gt), ([Fin 0, Fin 2], ?gt)]) =
     Inr (Fin 2, Fin 0, [0, 0, 0, 1], Fin (1 / 4))"
    unfolding validation_def tl
    by (simp add: aggregate_stats_def Let_def l2 np_mean_def)
  show ?thesis using v l2 l3 by simp
qed

end
